theory Spec2Isabelle
  imports Main "HOL-Library.Sublist" "HOL-Library.AList" "HOL-Library.Finite_Map"
    "HOL-Library.Multiset"
begin

section \<open>Strings, numbers and errors\<close>

text \<open>
  Go's \<^verbatim>\<open>error\<close> values of this package are all built with \<^verbatim>\<open>fmt.Errorf\<close>; an error
  is modelled by its message, and \<^verbatim>\<open>%w\<close> / \<^verbatim>\<open>%v\<close> of an error splice the message in.
  A fallible function returns \<open>error + 'a\<close> with \<open>Inl\<close> for the error.
\<close>

type_synonym error = string

text \<open>\<^verbatim>\<open>%d\<close> of an integer: decimal digits, with a minus sign for negatives.\<close>

function itoa_pos :: "int \<Rightarrow> string" where
  "itoa_pos n =
     (if n < 10 then [char_of (48 + n)]
      else itoa_pos (n div 10) @ [char_of (48 + n mod 10)])"
  by pat_completeness auto
termination
  by (relation "measure nat") auto

definition itoa :: "int \<Rightarrow> string" where
  "itoa i = (if i < 0 then CHR ''-'' # itoa_pos (- i) else itoa_pos i)"

text \<open>
  \<^verbatim>\<open>%q\<close> as \<^verbatim>\<open>strconv\<close> uses it in its error text. Only the enclosing quotes are
  modelled (exact for printable ASCII without quote or backslash); the text of a
  \<^verbatim>\<open>strconv\<close> error is never inspected by the package.
\<close>

definition go_quote :: "string \<Rightarrow> string" where
  "go_quote s = CHR 0x22 # s @ [CHR 0x22]"

text \<open>
  \<^verbatim>\<open>strings.SplitN(s, "_", 2)\<close>: one field when \<open>s\<close> has no underscore, otherwise the
  text before the first underscore and the whole text after it.
\<close>

fun cut_first :: "char \<Rightarrow> string \<Rightarrow> (string \<times> string) option" where
  "cut_first c [] = None"
| "cut_first c (x # xs) =
     (if x = c then Some ([], xs)
      else (case cut_first c xs of
              None \<Rightarrow> None
            | Some (a, b) \<Rightarrow> Some (x # a, b)))"

definition SplitN2 :: "string \<Rightarrow> string list" where
  "SplitN2 s = (case cut_first (CHR ''_'') s of None \<Rightarrow> [s] | Some (a, b) \<Rightarrow> [a, b])"

text \<open>
  \<^verbatim>\<open>strconv.ParseInt(s, 10, 64)\<close>: an optional sign, then one or more decimal digits
  (underscores are accepted by Go only for base 0), and the value must fit an
  \<^verbatim>\<open>int64\<close>.
\<close>

definition is_digit :: "char \<Rightarrow> bool" where
  "is_digit c = (48 \<le> (of_char c :: int) \<and> (of_char c :: int) \<le> 57)"

definition digit_val :: "char \<Rightarrow> int" where
  "digit_val c = of_char c - 48"

definition digits_val :: "string \<Rightarrow> int" where
  "digits_val s = foldl (\<lambda>acc c. 10 * acc + digit_val c) 0 s"

definition syntax_error :: "string \<Rightarrow> error" where
  "syntax_error s = ''strconv.ParseInt: parsing '' @ go_quote s @ '': invalid syntax''"

definition range_error :: "string \<Rightarrow> error" where
  "range_error s = ''strconv.ParseInt: parsing '' @ go_quote s @ '': value out of range''"

definition ParseInt :: "string \<Rightarrow> error + int" where
  "ParseInt s =
     (if s = [] then Inl (syntax_error s)
      else
        let neg = (hd s = CHR ''-'');
            body = (if hd s = CHR ''+'' \<or> hd s = CHR ''-'' then tl s else s)
        in if body = [] \<or> \<not> list_all is_digit body then Inl (syntax_error s)
           else
             let un = digits_val body
             in if \<not> neg \<and> un \<ge> 2 ^ 63 then Inl (range_error s)
                else if neg \<and> un > 2 ^ 63 then Inl (range_error s)
                else Inr (if neg then - un else un))"

section \<open>Data model\<close>

text \<open>
  \<^verbatim>\<open>time.Time\<close> is an instant read from the clock; the model takes every clock reading
  as an argument. The zero \<^verbatim>\<open>time.Time{}\<close> is \<open>0\<close>.
\<close>

type_synonym Time = int

text \<open>\<^verbatim>\<open>type Status string\<close> with its four constants.\<close>

type_synonym Status = string

definition StatusClean :: Status where "StatusClean = ''clean''"
definition StatusMigrating :: Status where "StatusMigrating = ''migrating''"
definition StatusDirty :: Status where "StatusDirty = ''dirty''"
definition StatusRollback :: Status where "StatusRollback = ''rollback''"

record MigrationRecord =
  RecID :: string
  RecDescription :: string
  AppliedAt :: Time
  Duration :: string
  Success :: bool
  Error :: string

text \<open>
  \<^verbatim>\<open>map[string]bool\<close> is an association list read with \<open>map_of\<close>; a missing key reads
  as \<^verbatim>\<open>false\<close>, and \<^verbatim>\<open>range\<close> visits the keys \<open>map fst\<close>.
\<close>

type_synonym boolmap = "(string \<times> bool) list"

definition lookup :: "boolmap \<Rightarrow> string \<Rightarrow> bool" where
  "lookup m k = (case map_of m k of None \<Rightarrow> False | Some b \<Rightarrow> b)"

record SchemaVersion =
  CurrentVersion :: int
  AppliedMigrations :: boolmap
  MigrationHistory :: "MigrationRecord list"
  LastMigrationAt :: Time
  Status :: Status

text \<open>
  The store. The key-value engine is an external collaborator: it is modelled as a
  reliable store whose reserved key \<^verbatim>\<open>__schema_version__\<close> holds the catalog record
  (the JSON blob decodes to the record that was encoded) and whose remaining keys are
  kept as a list of key-value pairs. \<^verbatim>\<open>Get\<close> and \<^verbatim>\<open>Set\<close> do not fail, so the returns
  of the source that only forward an I/O or a decoding failure have no branch here.
\<close>

record DB =
  catalog :: "SchemaVersion option"
  user_keys :: "(string \<times> string) list"

text \<open>
  A migration callback takes the store handle and returns an error or \<^verbatim>\<open>nil\<close>; what it
  did to the store is the second component. A \<^verbatim>\<open>nil\<close> callback is \<open>None\<close>.
\<close>

type_synonym MigrationFunc = "DB \<Rightarrow> error option \<times> DB"

record Migration =
  ID :: string
  Version :: int
  Dependencies :: "string list"
  Description :: string
  Up :: "MigrationFunc option"
  Down :: "MigrationFunc option"
  Validate :: "MigrationFunc option"
  Rerunnable :: bool

section \<open>Identifier parsing\<close>

definition ParseMigrationVersion :: "string \<Rightarrow> error + int" where
  "ParseMigrationVersion migrationID =
     (case SplitN2 migrationID of
        [p0, p1] \<Rightarrow>
          (case ParseInt p0 of
             Inl err \<Rightarrow> Inl (''invalid timestamp in migration ID: '' @ err)
           | Inr version \<Rightarrow>
               if version < 946684800 \<or> version > 4102444800
               then Inl (''timestamp '' @ itoa version @ '' is outside valid range (2000-2100)'')
               else Inr version)
      | _ \<Rightarrow> Inl ''migration ID must follow format <timestamp>_<description>'')"

definition isValidMigrationID :: "string \<Rightarrow> bool" where
  "isValidMigrationID i = (case ParseMigrationVersion i of Inl _ \<Rightarrow> False | Inr _ \<Rightarrow> True)"

section \<open>Catalog store\<close>

definition zero_record :: SchemaVersion where
  "zero_record =
     \<lparr>CurrentVersion = 0, AppliedMigrations = [], MigrationHistory = [],
      LastMigrationAt = 0, Status = StatusClean\<rparr>"

definition GetSchemaVersion :: "DB \<Rightarrow> SchemaVersion" where
  "GetSchemaVersion db = (case catalog db of None \<Rightarrow> zero_record | Some v \<Rightarrow> v)"

definition SetSchemaVersion :: "SchemaVersion \<Rightarrow> DB \<Rightarrow> DB" where
  "SetSchemaVersion v db = db\<lparr>catalog := Some v\<rparr>"

definition UpdateSchemaAfterMigration ::
  "Time \<Rightarrow> string \<Rightarrow> int \<Rightarrow> string \<Rightarrow> string \<Rightarrow> DB \<Rightarrow> DB" where
  "UpdateSchemaAfterMigration now migrationID version description duration db =
     (let currentSchema = GetSchemaVersion db;
          record = \<lparr>RecID = migrationID, RecDescription = description, AppliedAt = now,
                    Duration = duration, Success = True, Error = []\<rparr>;
          s1 = currentSchema\<lparr>
                 AppliedMigrations := AList.update migrationID True (AppliedMigrations currentSchema),
                 MigrationHistory := MigrationHistory currentSchema @ [record],
                 LastMigrationAt := AppliedAt record,
                 Status := StatusClean\<rparr>;
          s2 = (if version > CurrentVersion s1 then s1\<lparr>CurrentVersion := version\<rparr> else s1)
      in SetSchemaVersion s2 db)"

definition MarkMigrationStarted :: "DB \<Rightarrow> DB" where
  "MarkMigrationStarted db =
     SetSchemaVersion ((GetSchemaVersion db)\<lparr>Status := StatusMigrating\<rparr>) db"

definition MarkMigrationFailed :: "Time \<Rightarrow> string \<Rightarrow> string \<Rightarrow> error \<Rightarrow> DB \<Rightarrow> DB" where
  "MarkMigrationFailed now migrationID description migrationErr db =
     (let currentSchema = GetSchemaVersion db;
          record = \<lparr>RecID = migrationID, RecDescription = description @ '' (FAILED)'',
                    AppliedAt = now, Duration = ''0s'', Success = False,
                    Error = migrationErr\<rparr>
      in SetSchemaVersion
           (currentSchema\<lparr>
              MigrationHistory := MigrationHistory currentSchema @ [record],
              LastMigrationAt := AppliedAt record,
              Status := StatusDirty\<rparr>) db)"

definition MarkRollbackStarted :: "DB \<Rightarrow> DB" where
  "MarkRollbackStarted db =
     SetSchemaVersion ((GetSchemaVersion db)\<lparr>Status := StatusRollback\<rparr>) db"

text \<open>
  The loop of \<^verbatim>\<open>UpdateAfterRollback\<close> over the remaining applied identifiers: an
  identifier that does not parse is skipped.
\<close>

fun max_applied_version :: "string list \<Rightarrow> int \<Rightarrow> int" where
  "max_applied_version [] maxVersion = maxVersion"
| "max_applied_version (migID # rest) maxVersion =
     (case ParseMigrationVersion migID of
        Inr migVersion \<Rightarrow>
          if migVersion > maxVersion then max_applied_version rest migVersion
          else max_applied_version rest maxVersion
      | Inl _ \<Rightarrow> max_applied_version rest maxVersion)"

definition UpdateAfterRollback :: "Time \<Rightarrow> string \<Rightarrow> int \<Rightarrow> string \<Rightarrow> DB \<Rightarrow> DB" where
  "UpdateAfterRollback now migrationID version description db =
     (let currentSchema = GetSchemaVersion db;
          applied = AList.delete migrationID (AppliedMigrations currentSchema);
          rollbackRecord =
            \<lparr>RecID = migrationID @ ''_rollback'',
             RecDescription = ''Rolled back: '' @ description,
             AppliedAt = now, Duration = ''0s'', Success = True, Error = []\<rparr>;
          maxVersion = max_applied_version (map fst applied) 0
      in SetSchemaVersion
           (currentSchema\<lparr>
              AppliedMigrations := applied,
              MigrationHistory := MigrationHistory currentSchema @ [rollbackRecord],
              LastMigrationAt := AppliedAt rollbackRecord,
              Status := StatusClean,
              CurrentVersion := maxVersion\<rparr>) db)"

definition ForceCleanState :: "DB \<Rightarrow> DB" where
  "ForceCleanState db =
     SetSchemaVersion ((GetSchemaVersion db)\<lparr>Status := StatusClean\<rparr>) db"

text \<open>
  The version derived from an applied set, as the specification words it: the largest
  version parsed from an identifier of the set, and \<open>0\<close> when there is none.
\<close>

definition parsed_versions :: "string set \<Rightarrow> int set" where
  "parsed_versions ids = {v. \<exists>i. i \<in> ids \<and> ParseMigrationVersion i = Inr v}"

definition derived_version :: "string set \<Rightarrow> int" where
  "derived_version ids = Max (insert 0 (parsed_versions ids))"

definition applied_ids :: "SchemaVersion \<Rightarrow> string set" where
  "applied_ids s = fst ` set (AppliedMigrations s)"

section \<open>Registry\<close>

text \<open>
  \<^verbatim>\<open>migrations\<close> is the map from identifier to migration, \<^verbatim>\<open>ordered\<close> the slice kept
  ascending by version.
\<close>

record MigrationRegistry =
  migrations :: "(string \<times> Migration) list"
  ordered :: "Migration list"

definition NewMigrationRegistry :: MigrationRegistry where
  "NewMigrationRegistry = \<lparr>migrations = [], ordered = []\<rparr>"

text \<open>
  The loop at the end of \<^verbatim>\<open>Register\<close>: the appended migration is swapped towards the
  front while its version is strictly smaller than its predecessor's. \<open>sift m ps\<close> takes
  the earlier elements nearest first (the reversed slice) and returns the new slice,
  reversed as well.
\<close>

fun sift :: "Migration \<Rightarrow> Migration list \<Rightarrow> Migration list" where
  "sift m [] = [m]"
| "sift m (p # ps) = (if Version m < Version p then p # sift m ps else m # p # ps)"

definition Register :: "MigrationRegistry \<Rightarrow> Migration \<Rightarrow> error + MigrationRegistry" where
  "Register r m =
     (if map_of (migrations r) (ID m) \<noteq> None
      then Inl (''migration with ID '' @ [CHR 0x27] @ ID m @ [CHR 0x27] @ '' already registered'')
      else if ID m = [] then Inl ''migration ID cannot be empty''
      else if Up m = None
      then Inl (''migration '' @ [CHR 0x27] @ ID m @ [CHR 0x27] @ '' must have an Up function'')
      else if Down m = None
      then Inl (''migration '' @ [CHR 0x27] @ ID m @ [CHR 0x27] @ '' must have a Down function'')
      else
        (case ParseMigrationVersion (ID m) of
           Inl err \<Rightarrow>
             Inl (''invalid migration ID format '' @ [CHR 0x27] @ ID m @ [CHR 0x27] @ '': '' @ err)
         | Inr version \<Rightarrow>
             let m' = m\<lparr>Version := version\<rparr>
             in Inr \<lparr>migrations = AList.update (ID m') m' (migrations r),
                     ordered = rev (sift m' (rev (ordered r)))\<rparr>))"

definition GetMigration :: "MigrationRegistry \<Rightarrow> string \<Rightarrow> Migration option" where
  "GetMigration r i = map_of (migrations r) i"

definition GetMigrations :: "MigrationRegistry \<Rightarrow> Migration list" where
  "GetMigrations r = ordered r"

definition GetMigrationsInVersionRange :: "MigrationRegistry \<Rightarrow> int \<Rightarrow> int \<Rightarrow> Migration list" where
  "GetMigrationsInVersionRange r fromVersion toVersion =
     filter (\<lambda>m. Version m \<ge> fromVersion \<and> Version m \<le> toVersion) (ordered r)"

text \<open>The registries a process can build: the empty one, grown by successful \<^verbatim>\<open>Register\<close> calls.\<close>

inductive registered :: "MigrationRegistry \<Rightarrow> bool" where
  registered_new: "registered NewMigrationRegistry"
| registered_add: "registered r \<Longrightarrow> Register r m = Inr r' \<Longrightarrow> registered r'"

section \<open>Fresh-database initialisation\<close>

definition isDatabaseEmpty :: "DB \<Rightarrow> bool" where
  "isDatabaseEmpty db = (catalog db = None \<and> user_keys db = [])"

text \<open>
  One round of the loop of \<^verbatim>\<open>InitializeFreshDatabase\<close> over the registered migrations;
  the state is \<open>(maxVersion, appliedMigrations, migrationHistory)\<close>, and \<open>fresh_record\<close> is
  the synthetic history record the round appends.
\<close>

definition fresh_record :: "Time \<Rightarrow> Migration \<Rightarrow> MigrationRecord" where
  "fresh_record now m =
     \<lparr>RecID = ID m, RecDescription = Description m @ '' (skipped - fresh database)'',
      AppliedAt = now, Duration = ''0s'', Success = True, Error = []\<rparr>"

definition fresh_step ::
  "Time \<Rightarrow> Migration \<Rightarrow> int \<times> boolmap \<times> MigrationRecord list \<Rightarrow>
   int \<times> boolmap \<times> MigrationRecord list" where
  "fresh_step now m st =
     (case st of (maxVersion, appliedMigrations, migrationHistory) \<Rightarrow>
        ((if Version m > maxVersion then Version m else maxVersion),
         AList.update (ID m) True appliedMigrations,
         migrationHistory @ [fresh_record now m]))"

definition InitializeFreshDatabase :: "Time \<Rightarrow> MigrationRegistry \<Rightarrow> DB \<Rightarrow> DB" where
  "InitializeFreshDatabase now registry db =
     (case catalog db of
        Some _ \<Rightarrow> db
      | None \<Rightarrow>
          if \<not> isDatabaseEmpty db then
            SetSchemaVersion
              \<lparr>CurrentVersion = 0, AppliedMigrations = [], MigrationHistory = [],
               LastMigrationAt = 0, Status = StatusClean\<rparr> db
          else
            let migs = GetMigrations registry
            in if length migs = 0 then
                 SetSchemaVersion
                   \<lparr>CurrentVersion = 0, AppliedMigrations = [], MigrationHistory = [],
                    LastMigrationAt = 0, Status = StatusClean\<rparr> db
               else
                 (case fold (fresh_step now) migs (0, [], []) of
                    (maxVersion, appliedMigrations, migrationHistory) \<Rightarrow>
                      SetSchemaVersion
                        \<lparr>CurrentVersion = maxVersion, AppliedMigrations = appliedMigrations,
                         MigrationHistory = migrationHistory, LastMigrationAt = 0,
                         Status = StatusClean\<rparr> db))"

section \<open>Pending migrations\<close>

text \<open>
  The first loop of \<^verbatim>\<open>GetPendingMigrations\<close>: the registered migrations, in the order of
  \<^verbatim>\<open>ordered\<close>, whose identifier does not read \<^verbatim>\<open>true\<close> in the applied map.
\<close>

definition collect_pending :: "MigrationRegistry \<Rightarrow> boolmap \<Rightarrow> Migration list" where
  "collect_pending r appliedMigrations =
     filter (\<lambda>m. \<not> lookup appliedMigrations (ID m)) (ordered r)"

section \<open>Dependency ordering\<close>

text \<open>
  The three maps of \<^verbatim>\<open>topologicalSort\<close> are finite maps. Reading a missing key gives Go's
  zero value (\<open>geti\<close>, \<open>getl\<close>).
\<close>

type_synonym degmap = "(string, int) fmap"
type_synonym graphmap = "(string, string list) fmap"
type_synonym migmap = "(string, Migration) fmap"

definition geti :: "degmap \<Rightarrow> string \<Rightarrow> int" where
  "geti inDegree k = (case fmlookup inDegree k of None \<Rightarrow> 0 | Some n \<Rightarrow> n)"

definition getl :: "graphmap \<Rightarrow> string \<Rightarrow> string list" where
  "getl graph k = (case fmlookup graph k of None \<Rightarrow> [] | Some l \<Rightarrow> l)"

text \<open>The loop "Initialize graph", one round.\<close>

definition init_step :: "Migration \<Rightarrow> migmap \<times> degmap \<times> graphmap \<Rightarrow> migmap \<times> degmap \<times> graphmap" where
  "init_step m st =
     (case st of (migrationMap, inDegree, graph) \<Rightarrow>
        (fmupd (ID m) m migrationMap, fmupd (ID m) 0 inDegree, fmupd (ID m) [] graph))"

text \<open>
  The loop "Build edges and calculate in-degrees": \<open>add_edge\<close> is its body for one
  dependency of one migration, \<open>add_edges\<close> runs over the dependencies of a migration and
  \<open>build_edges\<close> over the migrations; the first error ends the sort.
\<close>

definition add_edge ::
  "MigrationRegistry \<Rightarrow> boolmap \<Rightarrow> migmap \<Rightarrow> Migration \<Rightarrow> string \<Rightarrow>
   degmap \<times> graphmap \<Rightarrow> error + degmap \<times> graphmap" where
  "add_edge r appliedMigrations migrationMap m depID st =
     (case st of (inDegree, graph) \<Rightarrow>
        if \<not> lookup appliedMigrations depID then
          (case fmlookup migrationMap depID of
             None \<Rightarrow>
               if map_of (migrations r) depID = None then
                 Inl (''migration '' @ ID m @ '' depends on non-existent migration '' @ depID)
               else if \<not> lookup appliedMigrations depID then
                 Inl (''migration '' @ ID m @ '' depends on '' @ depID @
                      '' which is neither applied nor pending'')
               else Inr (inDegree, graph)
           | Some _ \<Rightarrow>
               Inr (fmupd (ID m) (geti inDegree (ID m) + 1) inDegree,
                    fmupd depID (getl graph depID @ [ID m]) graph))
        else Inr (inDegree, graph))"

fun add_edges ::
  "MigrationRegistry \<Rightarrow> boolmap \<Rightarrow> migmap \<Rightarrow> Migration \<Rightarrow> string list \<Rightarrow>
   degmap \<times> graphmap \<Rightarrow> error + degmap \<times> graphmap" where
  "add_edges r appliedMigrations migrationMap m [] st = Inr st"
| "add_edges r appliedMigrations migrationMap m (depID # deps) st =
     (case add_edge r appliedMigrations migrationMap m depID st of
        Inl err \<Rightarrow> Inl err
      | Inr st' \<Rightarrow> add_edges r appliedMigrations migrationMap m deps st')"

fun build_edges ::
  "MigrationRegistry \<Rightarrow> boolmap \<Rightarrow> migmap \<Rightarrow> Migration list \<Rightarrow>
   degmap \<times> graphmap \<Rightarrow> error + degmap \<times> graphmap" where
  "build_edges r appliedMigrations migrationMap [] st = Inr st"
| "build_edges r appliedMigrations migrationMap (m # ms) st =
     (case add_edges r appliedMigrations migrationMap m (Dependencies m) st of
        Inl err \<Rightarrow> Inl err
      | Inr st' \<Rightarrow> build_edges r appliedMigrations migrationMap ms st')"

text \<open>
  \<^verbatim>\<open>for id, degree := range inDegree\<close>: Go leaves the order in which \<^verbatim>\<open>range\<close> visits the
  keys of a map unspecified (the runtime randomises it), so the order is an argument: the
  list of keys in the order this run visits them. The keys of \<^verbatim>\<open>inDegree\<close> are keys of
  \<^verbatim>\<open>migrationMap\<close> (lemma \<open>build_maps\<close> below), so \<^verbatim>\<open>migrationMap[id]\<close> is
  never \<^verbatim>\<open>nil\<close> there.
\<close>

fun seed_ready :: "string list \<Rightarrow> degmap \<Rightarrow> migmap \<Rightarrow> Migration list" where
  "seed_ready [] inDegree migrationMap = []"
| "seed_ready (i # rest) inDegree migrationMap =
     (case fmlookup inDegree i of
        Some degree \<Rightarrow>
          (if degree = 0 then
             (case fmlookup migrationMap i of
                Some m \<Rightarrow> m # seed_ready rest inDegree migrationMap
              | None \<Rightarrow> seed_ready rest inDegree migrationMap)
           else seed_ready rest inDegree migrationMap)
      | None \<Rightarrow> seed_ready rest inDegree migrationMap)"

text \<open>
  The exchange sort of the ready slice. \<open>pass x ys\<close> is the inner loop for one \<open>i\<close>:
  \<open>x\<close> is \<^verbatim>\<open>ready[i]\<close>, \<open>ys\<close> the elements after it; it swaps whenever
  \<^verbatim>\<open>ready[i].Version > ready[j].Version\<close>.
\<close>

fun pass :: "Migration \<Rightarrow> Migration list \<Rightarrow> Migration \<times> Migration list" where
  "pass x [] = (x, [])"
| "pass x (y # ys) =
     (if Version x > Version y
      then (case pass y ys of (m, r) \<Rightarrow> (m, x # r))
      else (case pass x ys of (m, r) \<Rightarrow> (m, y # r)))"

lemma length_pass: "pass x ys = (m, r) \<Longrightarrow> length r = length ys"
  by (induction ys arbitrary: x m r) (auto split: prod.splits if_splits)

function sort_ready :: "Migration list \<Rightarrow> Migration list" where
  "sort_ready [] = []"
| "sort_ready (x # xs) = (case pass x xs of (m, r) \<Rightarrow> m # sort_ready r)"
  by pat_completeness auto
termination
  by (relation "measure length") (auto dest!: length_pass[OF sym])

text \<open>
  The loop "Reduce in-degree for dependent migrations". The dependents are identifiers of
  pending migrations, so \<^verbatim>\<open>migrationMap[dependent]\<close> is never \<^verbatim>\<open>nil\<close> (lemma
  \<open>relax_effect\<close> below).
\<close>

fun relax :: "migmap \<Rightarrow> string list \<Rightarrow> degmap \<times> Migration list \<Rightarrow> degmap \<times> Migration list" where
  "relax migrationMap [] st = st"
| "relax migrationMap (dependent # rest) (inDegree, ready) =
     (let inDegree' = fmupd dependent (geti inDegree dependent - 1) inDegree
      in relax migrationMap rest
           (inDegree',
            (if geti inDegree' dependent = 0 then
               (case fmlookup migrationMap dependent of
                  Some m \<Rightarrow> ready @ [m]
                | None \<Rightarrow> ready)
             else ready)))"

text \<open>
  The main loop terminates: every round takes one migration off the ready slice, and a
  migration is appended only when its in-degree steps from one to zero.
\<close>

definition poscount :: "degmap \<Rightarrow> nat" where
  "poscount inDegree = card {k \<in> fmdom' inDegree. geti inDegree k > 0}"

lemma poscount_decr:
  "poscount (fmupd d (geti deg d - 1) deg) + (if geti deg d = 1 then 1 else 0) = poscount deg"
proof (cases "geti deg d = 1")
  case True
  let ?A = "{k \<in> fmdom' deg. geti deg k > 0}"
  have d: "d \<in> fmdom' deg"
    using True by (auto simp: geti_def fmlookup_dom'_iff split: option.splits)
  have eq: "{k \<in> fmdom' (fmupd d (geti deg d - 1) deg). geti (fmupd d (geti deg d - 1) deg) k > 0}
        = ?A - {d}"
    using True d by (auto simp: geti_def)
  have "finite ?A" by simp
  moreover have "d \<in> ?A" using True d by simp
  ultimately have "Suc (card (?A - {d})) = card ?A" by (rule card_Suc_Diff1)
  then show ?thesis using True eq by (simp add: poscount_def)
next
  case False
  have "{k \<in> fmdom' (fmupd d (geti deg d - 1) deg). geti (fmupd d (geti deg d - 1) deg) k > 0}
        = {k \<in> fmdom' deg. geti deg k > 0}"
    using False by (auto simp: geti_def fmlookup_dom'_iff split: option.splits if_splits)
  then show ?thesis using False by (simp add: poscount_def)
qed

lemma relax_measure:
  "relax mm ds (deg, ready) = (deg', ready') \<Longrightarrow>
     length ready' + poscount deg' \<le> length ready + poscount deg"
proof (induction ds arbitrary: deg ready)
  case Nil
  then show ?case by simp
next
  case (Cons d ds)
  let ?deg1 = "fmupd d (geti deg d - 1) deg"
  let ?r1 = "(if geti ?deg1 d = 0 then
               (case fmlookup mm d of Some m \<Rightarrow> ready @ [m] | None \<Rightarrow> ready)
             else ready)"
  from Cons.prems have "relax mm ds (?deg1, ?r1) = (deg', ready')" by (simp add: Let_def)
  from Cons.IH[OF this] have "length ready' + poscount deg' \<le> length ?r1 + poscount ?deg1" .
  moreover have "length ?r1 \<le> length ready + (if geti deg d = 1 then 1 else 0)"
    by (auto simp: geti_def split: option.splits)
  ultimately show ?case using poscount_decr[of d deg] by (simp split: if_splits)
qed

lemma length_sort_ready: "length (sort_ready xs) = length xs"
proof (induction xs rule: sort_ready.induct)
  case 1
  then show ?case by simp
next
  case (2 x xs)
  obtain m r where p: "pass x xs = (m, r)" by (metis surj_pair)
  then have "length r = length xs" by (rule length_pass)
  then show ?case using 2 p by simp
qed

function kahn_loop ::
  "graphmap \<Rightarrow> migmap \<Rightarrow> degmap \<times> Migration list \<times> Migration list \<Rightarrow> degmap \<times> Migration list" where
  "kahn_loop graph migrationMap (inDegree, ready, sorted_out) =
     (if length ready > 0 then
        (case sort_ready ready of
           [] \<Rightarrow> (inDegree, sorted_out)
         | current # rest \<Rightarrow>
             (case relax migrationMap (getl graph (ID current)) (inDegree, rest) of
                (inDegree', ready') \<Rightarrow>
                  kahn_loop graph migrationMap (inDegree', ready', sorted_out @ [current])))
      else (inDegree, sorted_out))"
  by pat_completeness auto
termination
  apply (relation "measure (\<lambda>(g, mm, deg, ready, sorted_out). length ready + poscount deg)")
   apply simp
  apply simp
  apply (drule relax_measure[OF sym])
  apply (drule arg_cong[where f = length])
  apply (simp add: length_sort_ready)
  done

text \<open>\<^verbatim>\<open>%v\<close> of a slice of strings: the elements between brackets, separated by spaces.\<close>

fun join_space :: "string list \<Rightarrow> string" where
  "join_space [] = []"
| "join_space [x] = x"
| "join_space (x # y # zs) = x @ '' '' @ join_space (y # zs)"

definition format_strings :: "string list \<Rightarrow> string" where
  "format_strings xs = ''['' @ join_space xs @ '']''"

definition cycle_ids :: "string list \<Rightarrow> degmap \<Rightarrow> string list" where
  "cycle_ids cycleOrder inDegree =
     filter (\<lambda>i. case fmlookup inDegree i of Some degree \<Rightarrow> degree > 0 | None \<Rightarrow> False) cycleOrder"

text \<open>
  \<open>seedOrder\<close> and \<open>cycleOrder\<close> are the orders of the two \<^verbatim>\<open>range\<close> loops over
  \<^verbatim>\<open>inDegree\<close>.
\<close>

definition topologicalSort ::
  "MigrationRegistry \<Rightarrow> Migration list \<Rightarrow> boolmap \<Rightarrow> string list \<Rightarrow> string list \<Rightarrow>
   error + Migration list" where
  "topologicalSort r migs appliedMigrations seedOrder cycleOrder =
     (if length migs = 0 then Inr migs
      else
        (case fold init_step migs (fmempty, fmempty, fmempty) of
           (migrationMap, inDegree0, graph0) \<Rightarrow>
             (case build_edges r appliedMigrations migrationMap migs (inDegree0, graph0) of
                Inl err \<Rightarrow> Inl err
              | Inr (inDegree, graph) \<Rightarrow>
                  (case kahn_loop graph migrationMap
                          (inDegree, seed_ready seedOrder inDegree migrationMap, []) of
                     (inDegree', sorted_out) \<Rightarrow>
                       if length sorted_out \<noteq> length migs then
                         Inl (''circular dependency detected involving migrations: '' @
                              format_strings (cycle_ids cycleOrder inDegree'))
                       else Inr sorted_out))))"

definition GetPendingMigrations ::
  "MigrationRegistry \<Rightarrow> boolmap \<Rightarrow> string list \<Rightarrow> string list \<Rightarrow> error + Migration list" where
  "GetPendingMigrations r appliedMigrations seedOrder cycleOrder =
     (case topologicalSort r (collect_pending r appliedMigrations) appliedMigrations
             seedOrder cycleOrder of
        Inl err \<Rightarrow> Inl (''failed to sort migrations by dependencies: '' @ err)
      | Inr sorted_out \<Rightarrow> Inr sorted_out)"

section \<open>The pending order, as the specification words it\<close>

text \<open>
  A pending migration is ready once each of its dependencies is applied or already
  emitted. An order is a run of Kahn's algorithm with the ready set keyed on the version
  when every element, at its turn, is a pending migration not yet emitted, is ready, and
  has the smallest version among the ready pending migrations not yet emitted.
\<close>

definition is_ready :: "boolmap \<Rightarrow> string set \<Rightarrow> Migration \<Rightarrow> bool" where
  "is_ready appliedMigrations emitted m =
     list_all (\<lambda>d. lookup appliedMigrations d \<or> d \<in> emitted) (Dependencies m)"

fun kahn_min :: "boolmap \<Rightarrow> Migration list \<Rightarrow> string set \<Rightarrow> Migration list \<Rightarrow> bool" where
  "kahn_min appliedMigrations pending emitted [] = True"
| "kahn_min appliedMigrations pending emitted (x # xs) =
     (x \<in> set pending \<and> ID x \<notin> emitted \<and> is_ready appliedMigrations emitted x
      \<and> list_all (\<lambda>y. ID y \<notin> emitted \<and> is_ready appliedMigrations emitted y
                        \<longrightarrow> Version x \<le> Version y) pending
      \<and> kahn_min appliedMigrations pending (insert (ID x) emitted) xs)"

text \<open>
  The dependency graph of a pending set: an edge from \<open>d\<close> to a pending migration that
  lists \<open>d\<close> as a dependency, when \<open>d\<close> is itself pending and not applied. A dependency
  is dangling when it is neither applied nor pending.
\<close>

definition pending_deps :: "boolmap \<Rightarrow> Migration list \<Rightarrow> Migration \<Rightarrow> string list" where
  "pending_deps appliedMigrations pending m =
     filter (\<lambda>d. \<not> lookup appliedMigrations d \<and> d \<in> ID ` set pending) (Dependencies m)"

definition dep_graph :: "boolmap \<Rightarrow> Migration list \<Rightarrow> (string \<times> string) set" where
  "dep_graph appliedMigrations pending =
     {(d, i). \<exists>m. m \<in> set pending \<and> i = ID m \<and> d \<in> set (pending_deps appliedMigrations pending m)}"

definition no_dangling :: "boolmap \<Rightarrow> Migration list \<Rightarrow> bool" where
  "no_dangling appliedMigrations pending =
     list_all (\<lambda>m. list_all (\<lambda>d. lookup appliedMigrations d \<or> d \<in> ID ` set pending)
                      (Dependencies m)) pending"

section \<open>Invariants of the sort\<close>

text \<open>
  \<open>maps_ok\<close>: the map from identifier to migration holds exactly the pending migrations,
  each under its own identifier. \<open>edges_ok\<close>: after the edge-building loop the in-degree
  of a pending migration is the number of its outstanding dependencies and the dependents
  of an identifier list each migration once per dependency on it. \<open>kinv\<close>: the invariant
  of the main loop; the in-degree counts the dependencies not yet emitted, and a migration
  is emitted or ready exactly when that count is zero.
\<close>

definition maps_ok :: "Migration list \<Rightarrow> migmap \<Rightarrow> bool" where
  "maps_ok ms mm =
     (fmdom' mm = ID ` set ms
      \<and> (\<forall>m. m \<in> set ms \<longrightarrow> fmlookup mm (ID m) = Some m)
      \<and> (\<forall>k x. fmlookup mm k = Some x \<longrightarrow> x \<in> set ms \<and> ID x = k))"

definition edges_ok :: "boolmap \<Rightarrow> Migration list \<Rightarrow> degmap \<Rightarrow> graphmap \<Rightarrow> bool" where
  "edges_ok ap ms deg g =
     ((\<forall>m. m \<in> set ms \<longrightarrow> geti deg (ID m) = int (length (pending_deps ap ms m)))
      \<and> (\<forall>k m. m \<in> set ms \<longrightarrow> count_list (getl g k) (ID m) = count_list (pending_deps ap ms m) k)
      \<and> (\<forall>k. set (getl g k) \<subseteq> ID ` set ms)
      \<and> fmdom' deg = ID ` set ms)"

definition kinv :: "boolmap \<Rightarrow> Migration list \<Rightarrow> degmap \<Rightarrow> Migration list \<Rightarrow> Migration list \<Rightarrow> bool" where
  "kinv ap ms deg ready out =
     (distinct (map ID (out @ ready)) \<and> set (out @ ready) \<subseteq> set ms
      \<and> (\<forall>m. m \<in> set ms \<longrightarrow>
            geti deg (ID m)
              = int (length (filter (\<lambda>d. d \<notin> ID ` set out) (pending_deps ap ms m))))
      \<and> (\<forall>m. m \<in> set ms \<longrightarrow> (m \<in> set out \<union> set ready) = (geti deg (ID m) = 0))
      \<and> kahn_min ap ms {} out)"

section \<open>Planner\<close>

type_synonym ExecutionType = string

definition ExecutionTypeUpgrade :: ExecutionType where "ExecutionTypeUpgrade = ''upgrade''"
definition ExecutionTypeDowngrade :: ExecutionType where "ExecutionTypeDowngrade = ''downgrade''"
definition ExecutionTypeRerun :: ExecutionType where "ExecutionTypeRerun = ''rerun''"

record ExecutionPlan =
  PlanType :: ExecutionType
  PlanCurrentVersion :: int
  PlanTargetVersion :: int
  PlanMigrations :: "Migration list"
  EstimatedSteps :: nat

definition PlanUpgrade ::
  "MigrationRegistry \<Rightarrow> string list \<Rightarrow> string list \<Rightarrow> DB \<Rightarrow> error + ExecutionPlan" where
  "PlanUpgrade r seedOrder cycleOrder db =
     (let currentSchema = GetSchemaVersion db
      in case GetPendingMigrations r (AppliedMigrations currentSchema) seedOrder cycleOrder of
           Inl err \<Rightarrow> Inl (''failed to get pending migrations: '' @ err)
         | Inr pendingMigrations \<Rightarrow>
             Inr \<lparr>PlanType = ExecutionTypeUpgrade,
                  PlanCurrentVersion = CurrentVersion currentSchema,
                  PlanTargetVersion =
                    (if length pendingMigrations > 0
                     then fold (\<lambda>m maxVersion. if Version m > maxVersion then Version m else maxVersion)
                            pendingMigrations (CurrentVersion currentSchema)
                     else CurrentVersion currentSchema),
                  PlanMigrations = pendingMigrations,
                  EstimatedSteps = length pendingMigrations\<rparr>)"


definition PlanDowngrade :: "MigrationRegistry \<Rightarrow> int \<Rightarrow> DB \<Rightarrow> ExecutionPlan" where
  "PlanDowngrade r targetVersion db =
     (let currentSchema = GetSchemaVersion db
      in if CurrentVersion currentSchema \<le> targetVersion then
           \<lparr>PlanType = ExecutionTypeDowngrade,
            PlanCurrentVersion = CurrentVersion currentSchema,
            PlanTargetVersion = CurrentVersion currentSchema,
            PlanMigrations = [],
            EstimatedSteps = 0\<rparr>
         else
           let migrationsToRollback =
                 GetMigrationsInVersionRange r (targetVersion + 1) (CurrentVersion currentSchema);
               rollbackMigrations =
                 filter (\<lambda>m. lookup (AppliedMigrations currentSchema) (ID m))
                   (rev migrationsToRollback)
           in \<lparr>PlanType = ExecutionTypeDowngrade,
                PlanCurrentVersion = CurrentVersion currentSchema,
                PlanTargetVersion = targetVersion,
                PlanMigrations = rollbackMigrations,
                EstimatedSteps = length rollbackMigrations\<rparr>)"

definition PlanRerun :: "MigrationRegistry \<Rightarrow> string \<Rightarrow> DB \<Rightarrow> error + ExecutionPlan" where
  "PlanRerun r migrationID db =
     (case GetMigration r migrationID of
        None \<Rightarrow> Inl (''migration '' @ [CHR 0x27] @ migrationID @ [CHR 0x27] @ '' not found'')
      | Some migration \<Rightarrow>
          let currentSchema = GetSchemaVersion db
          in Inr \<lparr>PlanType = ExecutionTypeRerun,
                  PlanCurrentVersion = CurrentVersion currentSchema,
                  PlanTargetVersion = CurrentVersion currentSchema,
                  PlanMigrations = [migration],
                  EstimatedSteps = 2\<rparr>)"

section \<open>Validation of the catalog\<close>

definition isRollbackRecord :: "string \<Rightarrow> bool" where
  "isRollbackRecord i = (length i > 9 \<and> drop (length i - 9) i = ''_rollback'')"

text \<open>
  The loop of \<^verbatim>\<open>ValidateSchemaState\<close> over the history, one record; the state is the map
  \<^verbatim>\<open>successfulMigrations\<close>.
\<close>

definition successful_step :: "MigrationRecord \<Rightarrow> boolmap \<Rightarrow> boolmap" where
  "successful_step record successfulMigrations =
     (if Success record \<and> \<not> isRollbackRecord (RecID record)
      then AList.update (RecID record) True successfulMigrations
      else if isRollbackRecord (RecID record)
      then AList.delete (take (length (RecID record) - 9) (RecID record)) successfulMigrations
      else successfulMigrations)"

text \<open>
  The two consistency loops range over maps and return at the first offending key; the
  model visits the keys in the order of the association list.
\<close>

definition ValidateSchemaState :: "DB \<Rightarrow> error option" where
  "ValidateSchemaState db =
     (let currentSchema = GetSchemaVersion db
      in if Status currentSchema = StatusDirty
         then Some ''database is in dirty state, manual intervention required''
         else if Status currentSchema = StatusMigrating
         then Some ''migration is currently in progress''
         else if Status currentSchema = StatusRollback
         then Some ''rollback is currently in progress''
         else
           let successfulMigrations = fold successful_step (MigrationHistory currentSchema) []
           in case find (\<lambda>i. \<not> lookup (AppliedMigrations currentSchema) i)
                     (map fst successfulMigrations) of
                Some i \<Rightarrow>
                  Some (''migration '' @ i @
                        '' appears in history as successful but not marked as applied'')
              | None \<Rightarrow>
                  (case find (\<lambda>i. \<not> lookup successfulMigrations i)
                          (map fst (AppliedMigrations currentSchema)) of
                     Some i \<Rightarrow>
                       Some (''migration '' @ i @
                             '' marked as applied but no successful record in history'')
                   | None \<Rightarrow> None))"

section \<open>Engine\<close>

text \<open>
  What the engine reads from outside the store: the clock (one reading stands for every
  \<^verbatim>\<open>time.Now()\<close> of a run), the formatted duration of a callback, the outcome of
  \<^verbatim>\<open>BackupManager.CreateBackup\<close> and of the disk-space probe (\<open>None\<close> for success), and
  the orders of the \<^verbatim>\<open>range\<close> loops of the two planning calls of the startup path.
  Progress callbacks and log lines only print and are left out.
\<close>

record Env =
  clockNow :: Time
  elapsed :: string
  backupError :: "error option"
  diskSpaceError :: "error option"
  recoverSeedOrder :: "string list"
  recoverCycleOrder :: "string list"
  planSeedOrder :: "string list"
  planCycleOrder :: "string list"

text \<open>\<open>hasBackupManager\<close> stands for \<^verbatim>\<open>backupManager != nil\<close>.\<close>

record MigrationEngine =
  dryRun :: bool
  verbose :: bool
  enableBackup :: bool
  hasBackupManager :: bool

definition executeSingleMigration :: "Migration \<Rightarrow> bool \<Rightarrow> DB \<Rightarrow> error option \<times> DB" where
  "executeSingleMigration migration up db =
     (let migrationFunc = (if up then Up migration else Down migration);
          direction = (if up then ''up'' else ''down'')
      in case migrationFunc of
           None \<Rightarrow> (Some (''migration '' @ ID migration @ '' has no '' @ direction @ '' function''), db)
         | Some f \<Rightarrow>
             (case f db of
                (Some err, db') \<Rightarrow> (Some (direction @ '' migration failed: '' @ err), db')
              | (None, db') \<Rightarrow>
                  (case Validate migration of
                     None \<Rightarrow> (None, db')
                   | Some validate \<Rightarrow>
                       (case validate db' of
                          (Some err, db'') \<Rightarrow> (Some (''migration validation failed: '' @ err), db'')
                        | (None, db'') \<Rightarrow> (None, db'')))))"

fun upgrade_loop :: "Env \<Rightarrow> Migration list \<Rightarrow> DB \<Rightarrow> error option \<times> DB" where
  "upgrade_loop env [] db = (None, db)"
| "upgrade_loop env (migration # rest) db =
     (case executeSingleMigration migration True db of
        (Some err, db') \<Rightarrow>
          (Some (''migration '' @ ID migration @ '' failed: '' @ err),
           MarkMigrationFailed (clockNow env) (ID migration) (Description migration) err db')
      | (None, db') \<Rightarrow>
          upgrade_loop env rest
            (UpdateSchemaAfterMigration (clockNow env) (ID migration) (Version migration)
               (Description migration) (elapsed env) db'))"

definition executeUpgrade :: "MigrationEngine \<Rightarrow> Env \<Rightarrow> ExecutionPlan \<Rightarrow> DB \<Rightarrow> error option \<times> DB" where
  "executeUpgrade e env plan db =
     (if dryRun e then (None, db)
      else
        case (if enableBackup e \<and> hasBackupManager e \<and> length (PlanMigrations plan) > 0
              then backupError env else None) of
          Some err \<Rightarrow> (Some (''failed to create backup before migration: '' @ err), db)
        | None \<Rightarrow>
            (case ValidateSchemaState db of
               Some err \<Rightarrow> (Some (''schema validation failed: '' @ err), db)
             | None \<Rightarrow> upgrade_loop env (PlanMigrations plan) (MarkMigrationStarted db)))"

fun downgrade_loop :: "Env \<Rightarrow> Migration list \<Rightarrow> DB \<Rightarrow> error option \<times> DB" where
  "downgrade_loop env [] db = (None, db)"
| "downgrade_loop env (migration # rest) db =
     (case executeSingleMigration migration False db of
        (Some err, db') \<Rightarrow>
          (Some (''rollback of migration '' @ ID migration @ '' failed: '' @ err),
           MarkMigrationFailed (clockNow env) (ID migration @ ''_rollback'')
             (''Rollback: '' @ Description migration) err db')
      | (None, db') \<Rightarrow>
          downgrade_loop env rest
            (UpdateAfterRollback (clockNow env) (ID migration) (Version migration)
               (Description migration) db'))"

definition executeDowngrade :: "MigrationEngine \<Rightarrow> Env \<Rightarrow> ExecutionPlan \<Rightarrow> DB \<Rightarrow> error option \<times> DB" where
  "executeDowngrade e env plan db =
     (if dryRun e then (None, db)
      else
        case (if enableBackup e \<and> hasBackupManager e \<and> length (PlanMigrations plan) > 0
              then backupError env else None) of
          Some err \<Rightarrow> (Some (''failed to create backup before rollback: '' @ err), db)
        | None \<Rightarrow>
            (case ValidateSchemaState db of
               Some err \<Rightarrow> (Some (''schema validation failed: '' @ err), db)
             | None \<Rightarrow> downgrade_loop env (PlanMigrations plan) (MarkRollbackStarted db)))"

definition executeRerun :: "MigrationEngine \<Rightarrow> Env \<Rightarrow> ExecutionPlan \<Rightarrow> DB \<Rightarrow> error option \<times> DB" where
  "executeRerun e env plan db =
     (case PlanMigrations plan of
        [migration] \<Rightarrow>
          if dryRun e then (None, db)
          else
            (case (if enableBackup e \<and> hasBackupManager e then backupError env else None) of
               Some err \<Rightarrow> (Some (''failed to create backup before rerun: '' @ err), db)
             | None \<Rightarrow>
                 (case ValidateSchemaState db of
                    Some err \<Rightarrow> (Some (''schema validation failed: '' @ err), db)
                  | None \<Rightarrow>
                      (case executeSingleMigration migration False (MarkMigrationStarted db) of
                         (Some err, db') \<Rightarrow>
                           (Some (''rerun rollback of migration '' @ ID migration @ '' failed: '' @ err),
                            MarkMigrationFailed (clockNow env) (ID migration @ ''_rerun_rollback'')
                              (''Rerun Rollback: '' @ Description migration) err db')
                       | (None, db') \<Rightarrow>
                           (case executeSingleMigration migration True db' of
                              (Some err, db'') \<Rightarrow>
                                (Some (''rerun of migration '' @ ID migration @ '' failed: '' @ err),
                                 MarkMigrationFailed (clockNow env) (ID migration @ ''_rerun'')
                                   (''Rerun: '' @ Description migration) err db'')
                            | (None, db'') \<Rightarrow>
                                (None,
                                 UpdateSchemaAfterMigration (clockNow env) (ID migration @ ''_rerun'')
                                   (Version migration) (''Rerun: '' @ Description migration)
                                   (elapsed env) db'')))))
      | ms \<Rightarrow>
          (Some (''rerun plan must contain exactly one migration, got '' @ itoa (int (length ms))),
           db))"

definition ExecutePlan :: "MigrationEngine \<Rightarrow> Env \<Rightarrow> ExecutionPlan \<Rightarrow> DB \<Rightarrow> error option \<times> DB" where
  "ExecutePlan e env plan db =
     (if PlanType plan = ExecutionTypeUpgrade then executeUpgrade e env plan db
      else if PlanType plan = ExecutionTypeDowngrade then executeDowngrade e env plan db
      else if PlanType plan = ExecutionTypeRerun then executeRerun e env plan db
      else (Some (''unsupported execution type: '' @ PlanType plan), db))"

section \<open>Startup integration\<close>

record StartupOptions =
  RunMigrations :: bool
  BackupEnabled :: bool
  CheckDiskSpace :: bool
  CLIName :: string

definition cli_name :: "StartupOptions \<Rightarrow> string" where
  "cli_name opts = (if CLIName opts = [] then ''pebble-migrate'' else CLIName opts)"

text \<open>The error of \<^verbatim>\<open>attemptMigrationRecovery\<close> for a stuck migration that is not rerunnable.\<close>

definition not_rerunnable_error :: "string \<Rightarrow> Migration \<Rightarrow> error" where
  "not_rerunnable_error cliName stuckMigration =
     ''database is in '' @ [CHR 0x27] @ ''migrating'' @ [CHR 0x27] @
     '' state - migration '' @ [CHR 0x27] @ ID stuckMigration @ [CHR 0x27] @
     '' ('' @ Description stuckMigration @ '') was interrupted. '' @
     ''This migration is not marked as rerunnable and requires manual intervention. '' @
     ''Options:'' @ [CHR 0x0A] @
     ''  1. Run '' @ [CHR 0x27] @ cliName @ '' validate'' @ [CHR 0x27] @
     '' to check if migration completed successfully'' @ [CHR 0x0A] @
     ''  2. Run '' @ [CHR 0x27] @ cliName @ '' force-clean'' @ [CHR 0x27] @
     '' to force reset (use with caution)'' @ [CHR 0x0A] @
     ''  3. Restore from backup if available''"

definition attemptMigrationRecovery ::
  "Env \<Rightarrow> MigrationRegistry \<Rightarrow> StartupOptions \<Rightarrow> DB \<Rightarrow> error option \<times> DB" where
  "attemptMigrationRecovery env registry opts db =
     (let currentSchema = GetSchemaVersion db;
          cliName = cli_name opts
      in case PlanUpgrade registry (recoverSeedOrder env) (recoverCycleOrder env) db of
           Inl err \<Rightarrow> (Some (''failed to create migration plan for recovery: '' @ err), db)
         | Inr plan \<Rightarrow>
             (case PlanMigrations plan of
                [] \<Rightarrow>
                  (Some (''database is in '' @ [CHR 0x27] @ ''migrating'' @ [CHR 0x27] @
                         '' state but no pending migrations found. Run '' @ [CHR 0x27] @
                         cliName @ '' force-clean'' @ [CHR 0x27] @ '' to manually reset state''),
                   db)
              | stuckMigration # _ \<Rightarrow>
                  if \<not> Rerunnable stuckMigration then
                    (Some (not_rerunnable_error cliName stuckMigration), db)
                  else
                    (None, SetSchemaVersion (currentSchema\<lparr>Status := StatusClean\<rparr>) db)))"

definition CheckAndRunStartupMigrations ::
  "Env \<Rightarrow> MigrationRegistry \<Rightarrow> StartupOptions \<Rightarrow> DB \<Rightarrow> error option \<times> DB" where
  "CheckAndRunStartupMigrations env registry opts db0 =
     (let db = InitializeFreshDatabase (clockNow env) registry db0;
          cliName = cli_name opts
      in case (if Status (GetSchemaVersion db) = StatusMigrating
               then attemptMigrationRecovery env registry opts db else (None, db)) of
           (Some err, db1) \<Rightarrow> (Some err, db1)
         | (None, db1) \<Rightarrow>
             if Status (GetSchemaVersion db1) \<noteq> StatusClean then
               (Some (''database is in '' @ [CHR 0x27] @ Status (GetSchemaVersion db1) @ [CHR 0x27] @
                      '' state - manual intervention required. Run '' @ [CHR 0x27] @ cliName @
                      '' status'' @ [CHR 0x27] @ '' to check and resolve issues''),
                db1)
             else
               (case PlanUpgrade registry (planSeedOrder env) (planCycleOrder env) db1 of
                  Inl err \<Rightarrow> (Some (''failed to create migration plan: '' @ err), db1)
                | Inr plan \<Rightarrow>
                    if length (PlanMigrations plan) = 0 then (None, db1)
                    else if \<not> RunMigrations opts then
                      (Some (''database has '' @ itoa (int (length (PlanMigrations plan))) @
                             '' pending migrations. Run migrations using '' @ [CHR 0x27] @ cliName @
                             '' up'' @ [CHR 0x27] @ '' or restart with --migrate flag. '' @
                             ''Note: After using --clean or with a new database, you must also pass --migrate''),
                       db1)
                    else
                      (case (if CheckDiskSpace opts then diskSpaceError env else None) of
                         Some err \<Rightarrow> (Some (''disk space check failed: '' @ err), db1)
                       | None \<Rightarrow>
                           (case ExecutePlan
                                   \<lparr>dryRun = False, verbose = False,
                                    enableBackup = BackupEnabled opts, hasBackupManager = True\<rparr>
                                   env plan db1 of
                              (Some err, db2) \<Rightarrow> (Some (''startup migration failed: '' @ err), db2)
                            | (None, db2) \<Rightarrow> (None, db2)))))"

section \<open>Reachable catalog states\<close>

text \<open>
  The states of the store that the catalog operations produce, starting from a store
  without the reserved key (where \<^verbatim>\<open>GetSchemaVersion\<close> answers the zero record).
  \<^verbatim>\<open>UpdateSchemaAfterMigration\<close> is called with the version parsed from the identifier,
  as the engine does; writes to other keys (by migration callbacks) are steps as well.
\<close>

inductive reachable :: "DB \<Rightarrow> bool" where
  reach_start: "catalog db = None \<Longrightarrow> reachable db"
| reach_init: "reachable db \<Longrightarrow> registered r \<Longrightarrow> reachable (InitializeFreshDatabase now r db)"
| reach_applied:
    "reachable db \<Longrightarrow> ParseMigrationVersion migrationID = Inr version \<Longrightarrow>
     reachable (UpdateSchemaAfterMigration now migrationID version description duration db)"
| reach_started: "reachable db \<Longrightarrow> reachable (MarkMigrationStarted db)"
| reach_rollback_started: "reachable db \<Longrightarrow> reachable (MarkRollbackStarted db)"
| reach_failed:
    "reachable db \<Longrightarrow> reachable (MarkMigrationFailed now migrationID description migrationErr db)"
| reach_rolled_back:
    "reachable db \<Longrightarrow> reachable (UpdateAfterRollback now migrationID version description db)"
| reach_force_clean: "reachable db \<Longrightarrow> reachable (ForceCleanState db)"
| reach_user_write: "reachable db \<Longrightarrow> reachable (db\<lparr>user_keys := ks\<rparr>)"

section \<open>The invariant and example inputs\<close>

text \<open>Version derivation: the current version is the one derived from the applied set.\<close>

definition version_derived :: "SchemaVersion \<Rightarrow> bool" where
  "version_derived s = (CurrentVersion s = derived_version (applied_ids s))"

text \<open>
  Concrete inputs for the closed instances below: callbacks that do nothing, and the
  registry that three \<^verbatim>\<open>Register\<close> calls build.
\<close>

definition noop :: MigrationFunc where
  "noop db = (None, db)"

definition example_migration :: "string \<Rightarrow> int \<Rightarrow> string list \<Rightarrow> bool \<Rightarrow> Migration" where
  "example_migration i v deps rr =
     \<lparr>ID = i, Version = v, Dependencies = deps, Description = ''example'',
      Up = Some noop, Down = Some noop, Validate = None, Rerunnable = rr\<rparr>"

definition example_registry :: MigrationRegistry where
  "example_registry =
     \<lparr>migrations =
        [(''1754917200_a'', example_migration ''1754917200_a'' 1754917200 [] False),
         (''1754917300_b'', example_migration ''1754917300_b'' 1754917300 [] False),
         (''1754917400_c'', example_migration ''1754917400_c'' 1754917400 [] False)],
      ordered =
        [example_migration ''1754917200_a'' 1754917200 [] False,
         example_migration ''1754917300_b'' 1754917300 [] False,
         example_migration ''1754917400_c'' 1754917400 [] False]\<rparr>"

text \<open>The registry of \<^verbatim>\<open>TestMigrationOrdering\<close>, as \<^verbatim>\<open>Register\<close> leaves it.\<close>

definition ordering_registry :: MigrationRegistry where
  "ordering_registry =
     \<lparr>migrations =
        [(''1500000000_third'',
            example_migration ''1500000000_third'' 1500000000 [''2000000000_second''] False),
         (''1000000000_first'', example_migration ''1000000000_first'' 1000000000 [] False),
         (''3000000000_fourth'',
            example_migration ''3000000000_fourth'' 3000000000 [''1000000000_first''] False),
         (''2000000000_second'', example_migration ''2000000000_second'' 2000000000 [] False)],
      ordered =
        [example_migration ''1000000000_first'' 1000000000 [] False,
         example_migration ''1500000000_third'' 1500000000 [''2000000000_second''] False,
         example_migration ''2000000000_second'' 2000000000 [] False,
         example_migration ''3000000000_fourth'' 3000000000 [''1000000000_first''] False]\<rparr>"

text \<open>
  The setting of the interrupted-migration scenarios: one registered migration
  \<open>1755000000_x\<close>, rerunnable or not, and a run of the startup path whose \<^verbatim>\<open>range\<close>
  loops see that one key.
\<close>

definition single_registry :: "bool \<Rightarrow> MigrationRegistry" where
  "single_registry rr =
     \<lparr>migrations = [(''1755000000_x'', example_migration ''1755000000_x'' 1755000000 [] rr)],
      ordered = [example_migration ''1755000000_x'' 1755000000 [] rr]\<rparr>"

definition example_env :: Env where
  "example_env =
     \<lparr>clockNow = 7, elapsed = ''1ms'', backupError = None, diskSpaceError = None,
      recoverSeedOrder = [''1755000000_x''], recoverCycleOrder = [],
      planSeedOrder = [''1755000000_x''], planCycleOrder = []\<rparr>"

definition example_opts :: StartupOptions where
  "example_opts =
     \<lparr>RunMigrations = True, BackupEnabled = False, CheckDiskSpace = True, CLIName = []\<rparr>"

text \<open>
  A callback keeps the catalog when it leaves the value under the reserved key as it
  found it (a \<^verbatim>\<open>nil\<close> callback does).
\<close>

definition keeps_catalog :: "MigrationFunc option \<Rightarrow> bool" where
  "keeps_catalog f = (case f of None \<Rightarrow> True | Some g \<Rightarrow> (\<forall>db. catalog (snd (g db)) = catalog db))"

text \<open>Two registered migrations that share a version.\<close>

definition tie_registry :: MigrationRegistry where
  "tie_registry =
     \<lparr>migrations =
        [(''1700000000_a'', example_migration ''1700000000_a'' 1700000000 [] False),
         (''1700000000_b'', example_migration ''1700000000_b'' 1700000000 [] False)],
      ordered =
        [example_migration ''1700000000_a'' 1700000000 [] False,
         example_migration ''1700000000_b'' 1700000000 [] False]\<rparr>"


section \<open>Properties of identifier parsing and of the catalog operations\<close>


lemma finite_parsed_versions: "finite ids \<Longrightarrow> finite (parsed_versions ids)"
proof -
  assume f: "finite ids"
  have "parsed_versions ids \<subseteq> (\<lambda>i. case ParseMigrationVersion i of Inr v \<Rightarrow> v | Inl _ \<Rightarrow> 0) ` ids"
    by (force simp: parsed_versions_def)
  then show ?thesis using f by (meson finite_imageI finite_subset)
qed

lemma parsed_versions_insert:
  "parsed_versions (insert i ids) =
     (case ParseMigrationVersion i of Inr v \<Rightarrow> insert v (parsed_versions ids) | Inl _ \<Rightarrow> parsed_versions ids)"
  by (auto simp: parsed_versions_def split: sum.splits)

lemma Max_insert_insert:
  fixes S :: "int set"
  assumes "finite S"
  shows "Max (insert a (insert b S)) = Max (insert (max a b) S)"
proof (cases "S = {}")
  case True
  then show ?thesis by simp
next
  case False
  then show ?thesis using assms by (simp add: max.assoc)
qed

lemma max_applied_version_Max:
  "max_applied_version ids m0 = Max (insert m0 (parsed_versions (set ids)))"
proof (induction ids arbitrary: m0)
  case Nil
  then show ?case by (simp add: parsed_versions_def)
next
  case (Cons i ids)
  have fin: "finite (parsed_versions (set ids))" by (simp add: finite_parsed_versions)
  show ?case
  proof (cases "ParseMigrationVersion i")
    case (Inl e)
    then show ?thesis using Cons by (simp add: parsed_versions_insert)
  next
    case (Inr v)
    have "max_applied_version (i # ids) m0 = max_applied_version ids (max m0 v)"
      using Inr by (simp add: max_def)
    also have "\<dots> = Max (insert (max m0 v) (parsed_versions (set ids)))"
      by (rule Cons.IH)
    also have "\<dots> = Max (insert m0 (insert v (parsed_versions (set ids))))"
      by (rule Max_insert_insert[OF fin, symmetric])
    finally show ?thesis using Inr by (simp add: parsed_versions_insert)
  qed
qed

lemma applied_ids_delete:
  "fst ` set (AList.delete k al) = fst ` set al - {k}"
  by (induction al) auto

lemma GetSchemaVersion_Set [simp]: "GetSchemaVersion (SetSchemaVersion v db) = v"
  by (simp add: GetSchemaVersion_def SetSchemaVersion_def)

lemma user_keys_Set [simp]: "user_keys (SetSchemaVersion v db) = user_keys db"
  by (simp add: SetSchemaVersion_def)

text \<open>
  Claim C3. Registration is said to accept an identifier exactly when, split at its first
  underscore, the first field is a decimal integer in [946684800, 4102444800] and the
  second field is non-empty and free of whitespace and of punctuation other than \<open>-\<close>
  and \<open>_\<close>. \<^verbatim>\<open>ParseMigrationVersion\<close> never looks at the second field: the identifiers
  that the table of \<^verbatim>\<open>TestMigrationIDValidation\<close> lists as invalid for their description
  (empty, with a space, with \<open>@\<close>) parse to a version, pass \<^verbatim>\<open>isValidMigrationID\<close> and
  are registered.
\<close>

theorem ParseMigrationVersion_accepts_unchecked_description:
  "ParseMigrationVersion ''1754917200_'' = Inr 1754917200
   \<and> ParseMigrationVersion ''1754917200_test migration'' = Inr 1754917200
   \<and> ParseMigrationVersion ''1754917200_test@migration'' = Inr 1754917200
   \<and> isValidMigrationID ''1754917200_''
   \<and> (\<exists>r. Register NewMigrationRegistry
              \<lparr>ID = ''1754917200_'', Version = 0, Dependencies = [], Description = [],
               Up = Some (\<lambda>db. (None, db)), Down = Some (\<lambda>db. (None, db)),
               Validate = None, Rerunnable = False\<rparr> = Inr r)"
  by (simp add: isValidMigrationID_def Register_def NewMigrationRegistry_def Let_def
      ParseMigrationVersion_def SplitN2_def ParseInt_def is_digit_def digits_val_def digit_val_def)

text \<open>
  Claim C7. For every catalog state and every identifier (an applied one in particular),
  \<^verbatim>\<open>UpdateAfterRollback\<close> leaves a record whose applied set is the old one without the
  identifier, whose history has grown by one success record named \<open>id @ ''_rollback''\<close>,
  whose current version is the largest version parsed from the remaining applied
  identifiers (\<open>0\<close> when none parses or none is left), and whose status is clean. The
  applied identifiers are the keys of the \<^verbatim>\<open>applied_migrations\<close> map, which is what the
  loop of the source ranges over.
\<close>

theorem UpdateAfterRollback_effect:
  "applied_ids (GetSchemaVersion (UpdateAfterRollback now migrationID version description db))
     = applied_ids (GetSchemaVersion db) - {migrationID}
   \<and> migrationID \<notin> applied_ids (GetSchemaVersion (UpdateAfterRollback now migrationID version description db))
   \<and> MigrationHistory (GetSchemaVersion (UpdateAfterRollback now migrationID version description db))
     = MigrationHistory (GetSchemaVersion db) @
         [\<lparr>RecID = migrationID @ ''_rollback'', RecDescription = ''Rolled back: '' @ description,
           AppliedAt = now, Duration = ''0s'', Success = True, Error = []\<rparr>]
   \<and> CurrentVersion (GetSchemaVersion (UpdateAfterRollback now migrationID version description db))
     = derived_version (applied_ids (GetSchemaVersion db) - {migrationID})
   \<and> Status (GetSchemaVersion (UpdateAfterRollback now migrationID version description db)) = StatusClean"
  by (simp add: UpdateAfterRollback_def Let_def applied_ids_def applied_ids_delete
      derived_version_def max_applied_version_Max)


lemma set_sift: "set (sift m ps) = insert m (set ps)"
  by (induction ps) auto

lemma Register_ordered:
  "Register r m = Inr r' \<Longrightarrow>
     \<exists>v. ParseMigrationVersion (ID m) = Inr v \<and> set (ordered r') = insert (m\<lparr>Version := v\<rparr>) (set (ordered r))"
  by (auto simp: Register_def Let_def set_sift split: if_splits sum.splits)

lemma registered_versions:
  "registered r \<Longrightarrow> m \<in> set (ordered r) \<Longrightarrow> ParseMigrationVersion (ID m) = Inr (Version m)"
proof (induction arbitrary: m rule: registered.induct)
  case registered_new
  then show ?case by (simp add: NewMigrationRegistry_def)
next
  case (registered_add r m0 r')
  from Register_ordered[OF registered_add.hyps(2)] obtain v where
    v: "ParseMigrationVersion (ID m0) = Inr v" "set (ordered r') = insert (m0\<lparr>Version := v\<rparr>) (set (ordered r))"
    by blast
  from registered_add.prems v(2) have "m = m0\<lparr>Version := v\<rparr> \<or> m \<in> set (ordered r)" by auto
  then show ?case using v(1) registered_add.IH by auto
qed

lemma parsed_versions_registered:
  assumes "registered r"
  shows "parsed_versions (ID ` set (ordered r)) = Version ` set (ordered r)"
  using registered_versions[OF assms] by (force simp: parsed_versions_def)

lemma fresh_step_simp:
  "fresh_step now m (mx, ap, h) =
     (max mx (Version m), AList.update (ID m) True ap, h @ [fresh_record now m])"
  by (simp add: fresh_step_def max_def)

lemma fold_fresh_step:
  "fold (fresh_step now) ms (mx, ap, h) = (mx', ap', h') \<Longrightarrow>
     mx' = Max (insert mx (Version ` set ms))
     \<and> fst ` set ap' = fst ` set ap \<union> ID ` set ms
     \<and> (\<forall>k. lookup ap' k = (k \<in> ID ` set ms \<or> lookup ap k))
     \<and> h' = h @ map (fresh_record now) ms"
proof (induction ms arbitrary: mx ap h)
  case Nil
  then show ?case by simp
next
  case (Cons m ms)
  let ?ap1 = "AList.update (ID m) True ap"
  from Cons.prems have
    "fold (fresh_step now) ms (max mx (Version m), ?ap1, h @ [fresh_record now m]) = (mx', ap', h')"
    by (simp add: fresh_step_simp)
  from Cons.IH[OF this] have
    a: "mx' = Max (insert (max mx (Version m)) (Version ` set ms))" and
    b: "fst ` set ap' = fst ` set ?ap1 \<union> ID ` set ms" and
    c: "\<forall>k. lookup ap' k = (k \<in> ID ` set ms \<or> lookup ?ap1 k)" and
    d: "h' = (h @ [fresh_record now m]) @ map (fresh_record now) ms"
    by blast+
  have a': "mx' = Max (insert mx (Version ` set (m # ms)))"
    using a Max_insert_insert[of "Version ` set ms" mx "Version m"] by simp
  have c': "\<forall>k. lookup ap' k = (k \<in> ID ` set (m # ms) \<or> lookup ap k)"
    using c by (auto simp: lookup_def update_conv')
  show ?case using a' b c' d by (auto simp: dom_update)
qed

lemma Init_present: "catalog db = Some v \<Longrightarrow> InitializeFreshDatabase now r db = db"
  by (simp add: InitializeFreshDatabase_def)

lemma Init_legacy:
  "catalog db = None \<Longrightarrow> user_keys db \<noteq> [] \<Longrightarrow>
     InitializeFreshDatabase now r db = SetSchemaVersion zero_record db"
  by (simp add: InitializeFreshDatabase_def isDatabaseEmpty_def zero_record_def)

lemma Init_fresh:
  assumes "catalog db = None" "user_keys db = []"
  shows "\<exists>s. InitializeFreshDatabase now r db = SetSchemaVersion s db
     \<and> applied_ids s = ID ` set (ordered r)
     \<and> (\<forall>k. lookup (AppliedMigrations s) k = (k \<in> ID ` set (ordered r)))
     \<and> MigrationHistory s = map (fresh_record now) (ordered r)
     \<and> CurrentVersion s = Max (insert 0 (Version ` set (ordered r)))
     \<and> Status s = StatusClean"
proof (cases "ordered r = []")
  case True
  have "InitializeFreshDatabase now r db = SetSchemaVersion zero_record db"
    using True assms
    by (simp add: InitializeFreshDatabase_def isDatabaseEmpty_def GetMigrations_def zero_record_def)
  then show ?thesis using True
    by (intro exI[of _ zero_record]) (simp add: zero_record_def applied_ids_def lookup_def)
next
  case False
  obtain mx ap h where f: "fold (fresh_step now) (ordered r) (0, [], []) = (mx, ap, h)"
    by (metis prod_cases3)
  from fold_fresh_step[OF f] have
    "mx = Max (insert 0 (Version ` set (ordered r)))"
    "fst ` set ap = ID ` set (ordered r)"
    "\<forall>k. lookup ap k = (k \<in> ID ` set (ordered r))"
    "h = map (fresh_record now) (ordered r)"
    by (auto simp: lookup_def)
  then show ?thesis using assms False f
    by (intro exI[of _ "\<lparr>CurrentVersion = mx, AppliedMigrations = ap,
                         MigrationHistory = h, LastMigrationAt = 0,
                         Status = StatusClean\<rparr>"])
       (simp add: InitializeFreshDatabase_def isDatabaseEmpty_def GetMigrations_def
        applied_ids_def Let_def)
qed






lemmas parse_eval =
  ParseMigrationVersion_def SplitN2_def ParseInt_def is_digit_def digits_val_def digit_val_def

lemma registered_example: "registered example_registry"
proof -
  let ?r1 = "\<lparr>migrations = [(''1754917200_a'', example_migration ''1754917200_a'' 1754917200 [] False)],
              ordered = [example_migration ''1754917200_a'' 1754917200 [] False]\<rparr>"
  let ?r2 = "\<lparr>migrations = [(''1754917200_a'', example_migration ''1754917200_a'' 1754917200 [] False),
                            (''1754917300_b'', example_migration ''1754917300_b'' 1754917300 [] False)],
              ordered = [example_migration ''1754917200_a'' 1754917200 [] False,
                         example_migration ''1754917300_b'' 1754917300 [] False]\<rparr>"
  have 1: "Register NewMigrationRegistry (example_migration ''1754917200_a'' 0 [] False) = Inr ?r1"
    by (simp add: Register_def NewMigrationRegistry_def example_migration_def Let_def parse_eval)
  have 2: "Register ?r1 (example_migration ''1754917300_b'' 0 [] False) = Inr ?r2"
    by (simp add: Register_def example_migration_def Let_def parse_eval)
  have 3: "Register ?r2 (example_migration ''1754917400_c'' 0 [] False) = Inr example_registry"
    by (simp add: Register_def example_migration_def example_registry_def Let_def parse_eval)
  show ?thesis
    using registered_add[OF registered_add[OF registered_add[OF registered_new 1] 2] 3] .
qed


lemma finite_applied_ids [simp]: "finite (applied_ids s)"
  by (simp add: applied_ids_def)

lemma derived_version_empty [simp]: "derived_version {} = 0"
  by (simp add: derived_version_def parsed_versions_def)

lemma derived_version_insert:
  assumes "ParseMigrationVersion i = Inr v" "finite A"
  shows "derived_version (insert i A) = max v (derived_version A)"
proof -
  have fin: "finite (insert 0 (parsed_versions A))"
    using assms(2) by (simp add: finite_parsed_versions)
  have "insert 0 (parsed_versions (insert i A)) = insert v (insert 0 (parsed_versions A))"
    using assms(1) by (auto simp: parsed_versions_insert)
  then show ?thesis using fin by (simp add: derived_version_def del: insert_iff)
qed

lemma UpdateSchemaAfterMigration_applied:
  "applied_ids (GetSchemaVersion (UpdateSchemaAfterMigration now i v d dur db))
     = insert i (applied_ids (GetSchemaVersion db))"
  by (auto simp: UpdateSchemaAfterMigration_def Let_def applied_ids_def dom_update)

lemma UpdateSchemaAfterMigration_version:
  "CurrentVersion (GetSchemaVersion (UpdateSchemaAfterMigration now i v d dur db))
     = max v (CurrentVersion (GetSchemaVersion db))"
  by (simp add: UpdateSchemaAfterMigration_def Let_def max_def)

lemma UpdateAfterRollback_version:
  "CurrentVersion (GetSchemaVersion (UpdateAfterRollback now i v d db))
     = derived_version (applied_ids (GetSchemaVersion (UpdateAfterRollback now i v d db)))"
  by (simp add: UpdateAfterRollback_def Let_def applied_ids_def derived_version_def
      max_applied_version_Max)

lemma Init_version_derived:
  assumes "registered r" "version_derived (GetSchemaVersion db)"
  shows "version_derived (GetSchemaVersion (InitializeFreshDatabase now r db))"
proof (cases "catalog db")
  case (Some v)
  then show ?thesis using assms(2) by (simp add: Init_present)
next
  case None
  show ?thesis
  proof (cases "user_keys db = []")
    case False
    then show ?thesis using None
      by (simp add: Init_legacy version_derived_def zero_record_def applied_ids_def)
  next
    case True
    from Init_fresh[OF None True, of now r] obtain s where s:
      "InitializeFreshDatabase now r db = SetSchemaVersion s db"
      "applied_ids s = ID ` set (ordered r)"
      "CurrentVersion s = Max (insert 0 (Version ` set (ordered r)))"
      by blast
    then show ?thesis
      using parsed_versions_registered[OF assms(1)]
      by (simp add: version_derived_def derived_version_def)
  qed
qed

lemma reachable_version_derived: "reachable db \<Longrightarrow> version_derived (GetSchemaVersion db)"
proof (induction rule: reachable.induct)
  case (reach_start db)
  then show ?case
    by (simp add: GetSchemaVersion_def zero_record_def version_derived_def applied_ids_def)
next
  case (reach_init db r now)
  then show ?case by (simp add: Init_version_derived)
next
  case (reach_applied db migrationID version now description duration)
  then show ?case
    by (simp add: version_derived_def UpdateSchemaAfterMigration_applied
        UpdateSchemaAfterMigration_version derived_version_insert)
next
  case (reach_rolled_back db now migrationID version description)
  then show ?case by (simp add: version_derived_def UpdateAfterRollback_version)
next
  case (reach_user_write db ks)
  then show ?case by (simp add: GetSchemaVersion_def)
qed (simp_all add: version_derived_def MarkMigrationStarted_def MarkRollbackStarted_def
      MarkMigrationFailed_def ForceCleanState_def Let_def applied_ids_def)

text \<open>
  Claim C8. In every state reachable through the catalog operations from a store without
  catalog, the current version equals the largest version parsed from the applied
  identifiers, and \<open>0\<close> when there is none.
\<close>

theorem version_derivation_invariant:
  "reachable db \<Longrightarrow>
     CurrentVersion (GetSchemaVersion db) = derived_version (applied_ids (GetSchemaVersion db))"
  using reachable_version_derived[of db] by (simp add: version_derived_def)

theorem version_derivation_invariant_witness:
  "reachable (UpdateAfterRollback 9 ''1754917400_c'' 1754917400 ''example''
       (InitializeFreshDatabase 7 example_registry \<lparr>catalog = None, user_keys = []\<rparr>))
   \<and> CurrentVersion (GetSchemaVersion
        (UpdateAfterRollback 9 ''1754917400_c'' 1754917400 ''example''
           (InitializeFreshDatabase 7 example_registry \<lparr>catalog = None, user_keys = []\<rparr>)))
      = 1754917300
   \<and> derived_version (applied_ids (GetSchemaVersion
        (UpdateAfterRollback 9 ''1754917400_c'' 1754917400 ''example''
           (InitializeFreshDatabase 7 example_registry \<lparr>catalog = None, user_keys = []\<rparr>))))
      = 1754917300"
proof -
  let ?db = "UpdateAfterRollback 9 ''1754917400_c'' 1754917400 ''example''
       (InitializeFreshDatabase 7 example_registry \<lparr>catalog = None, user_keys = []\<rparr>)"
  have r: "reachable ?db"
    by (intro reach_rolled_back reach_init reach_start registered_example) simp
  have v: "CurrentVersion (GetSchemaVersion ?db) = 1754917300"
    by (simp add: UpdateAfterRollback_def InitializeFreshDatabase_def isDatabaseEmpty_def
        GetMigrations_def example_registry_def example_migration_def fresh_step_def
        Let_def parse_eval)
  show ?thesis using version_derivation_invariant[OF r] r v by simp
qed

section \<open>Properties of the dependency ordering\<close>

subsection \<open>The exchange sort\<close>

lemma pass_mset: "pass x ys = (m, r) \<Longrightarrow> mset (m # r) = mset (x # ys)"
proof (induction ys arbitrary: x m r)
  case Nil
  then show ?case by simp
next
  case (Cons y ys)
  show ?case
  proof (cases "Version x > Version y")
    case True
    obtain m' r' where p: "pass y ys = (m', r')" by (metis surj_pair)
    with Cons.prems True have "m = m'" "r = x # r'" by auto
    then show ?thesis using Cons.IH[OF p] by simp
  next
    case False
    obtain m' r' where p: "pass x ys = (m', r')" by (metis surj_pair)
    with Cons.prems False have "m = m'" "r = y # r'" by auto
    then show ?thesis using Cons.IH[OF p] by simp
  qed
qed

lemma pass_min: "pass x ys = (m, r) \<Longrightarrow> y \<in> set (x # ys) \<Longrightarrow> Version m \<le> Version y"
proof (induction ys arbitrary: x m r y)
  case Nil
  then show ?case by simp
next
  case (Cons z zs)
  show ?case
  proof (cases "Version x > Version z")
    case True
    obtain m' r' where p: "pass z zs = (m', r')" by (metis surj_pair)
    with Cons.prems True have m: "m = m'" by auto
    have "Version m' \<le> Version z" using Cons.IH[OF p] by simp
    moreover have "y \<in> set (z # zs) \<Longrightarrow> Version m' \<le> Version y" using Cons.IH[OF p] by simp
    ultimately show ?thesis using Cons.prems(2) True m by auto
  next
    case False
    obtain m' r' where p: "pass x zs = (m', r')" by (metis surj_pair)
    with Cons.prems False have m: "m = m'" by auto
    have "Version m' \<le> Version x" using Cons.IH[OF p] by simp
    moreover have "y \<in> set (x # zs) \<Longrightarrow> Version m' \<le> Version y" using Cons.IH[OF p] by simp
    ultimately show ?thesis using Cons.prems(2) False m by auto
  qed
qed

lemma mset_sort_ready: "mset (sort_ready xs) = mset xs"
proof (induction xs rule: sort_ready.induct)
  case 1
  then show ?case by simp
next
  case (2 x xs)
  obtain m r where p: "pass x xs = (m, r)" by (metis surj_pair)
  have "mset (sort_ready (x # xs)) = mset (m # sort_ready r)" using p by simp
  also have "\<dots> = mset (m # r)" using 2[OF p[symmetric]] by simp
  also have "\<dots> = mset (x # xs)" by (rule pass_mset[OF p])
  finally show ?case .
qed

lemma sort_ready_head_min:
  assumes "sort_ready xs = c # rest" "y \<in> set xs"
  shows "Version c \<le> Version y"
proof (cases xs)
  case Nil
  then show ?thesis using assms by simp
next
  case (Cons x xs')
  obtain m r where p: "pass x xs' = (m, r)" by (metis surj_pair)
  then have "c = m" using assms(1) Cons by simp
  then show ?thesis using pass_min[OF p, of y] assms(2) Cons by simp
qed

subsection \<open>The maps built before the main loop\<close>

lemma init_step_simp:
  "init_step m (mm, deg, g) = (fmupd (ID m) m mm, fmupd (ID m) 0 deg, fmupd (ID m) [] g)"
  by (simp add: init_step_def)

lemma init_maps_aux:
  "distinct (map ID ms) \<Longrightarrow>
     (case fold init_step ms (fmempty, fmempty, fmempty) of
        (mm, deg, g) \<Rightarrow>
          maps_ok ms mm \<and> fmdom' deg = ID ` set ms \<and> (\<forall>k. geti deg k = 0) \<and> (\<forall>k. getl g k = []))"
proof (induction ms rule: rev_induct)
  case Nil
  then show ?case by (simp add: maps_ok_def geti_def getl_def)
next
  case (snoc x xs)
  obtain mm deg g where f: "fold init_step xs (fmempty, fmempty, fmempty) = (mm, deg, g)"
    by (metis prod_cases3)
  from snoc f have ih: "maps_ok xs mm" "fmdom' deg = ID ` set xs" "\<forall>k. geti deg k = 0"
    "\<forall>k. getl g k = []" and nx: "ID x \<notin> ID ` set xs"
    by auto
  have "maps_ok (xs @ [x]) (fmupd (ID x) x mm)"
    using ih(1) nx unfolding maps_ok_def by (auto simp: fmlookup_dom'_iff)
  moreover have "\<forall>k. geti (fmupd (ID x) 0 deg) k = 0" using ih(3) by (simp add: geti_def)
  moreover have "\<forall>k. getl (fmupd (ID x) [] g) k = []" using ih(4) by (simp add: getl_def)
  ultimately show ?case using f ih(2) by (simp add: init_step_simp)
qed

lemma init_maps:
  assumes "distinct (map ID ms)" "fold init_step ms (fmempty, fmempty, fmempty) = (mm, deg, g)"
  shows "maps_ok ms mm" "fmdom' deg = ID ` set ms" "geti deg k = 0" "getl g k = []"
  using init_maps_aux[OF assms(1)] assms(2) by auto

lemma add_edge_cases:
  assumes "maps_ok ms mm"
  shows "add_edge r ap mm m d (deg, g) =
     (if lookup ap d then Inr (deg, g)
      else if d \<in> ID ` set ms
      then Inr (fmupd (ID m) (geti deg (ID m) + 1) deg, fmupd d (getl g d @ [ID m]) g)
      else Inl (if map_of (migrations r) d = None
                then ''migration '' @ ID m @ '' depends on non-existent migration '' @ d
                else ''migration '' @ ID m @ '' depends on '' @ d @
                     '' which is neither applied nor pending''))"
proof -
  have "d \<in> ID ` set ms \<longleftrightarrow> fmlookup mm d \<noteq> None"
    using assms unfolding maps_ok_def by (metis fmlookup_dom'_iff option.distinct(1) not_None_eq)
  then show ?thesis by (auto simp: add_edge_def split: option.splits)
qed

lemma add_edges_Inr:
  assumes "maps_ok ms mm"
  shows "add_edges r ap mm m ds (deg, g) = Inr (deg', g') \<Longrightarrow>
     list_all (\<lambda>d. lookup ap d \<or> d \<in> ID ` set ms) ds
     \<and> (\<forall>k. geti deg' k = geti deg k +
            (if k = ID m
             then int (length (filter (\<lambda>d. \<not> lookup ap d \<and> d \<in> ID ` set ms) ds)) else 0))
     \<and> (\<forall>k i. count_list (getl g' k) i = count_list (getl g k) i +
            (if i = ID m
             then count_list (filter (\<lambda>d. \<not> lookup ap d \<and> d \<in> ID ` set ms) ds) k else 0))
     \<and> (\<forall>k. set (getl g' k) \<subseteq> insert (ID m) (set (getl g k)))
     \<and> fmdom' deg \<subseteq> fmdom' deg' \<and> fmdom' deg' \<subseteq> insert (ID m) (fmdom' deg)"
proof (induction ds arbitrary: deg g)
  case Nil
  then show ?case by auto
next
  case (Cons d ds)
  show ?case
  proof (cases "lookup ap d")
    case True
    with Cons.prems have "add_edges r ap mm m ds (deg, g) = Inr (deg', g')"
      by (simp add: add_edge_cases[OF assms])
    from Cons.IH[OF this] show ?thesis using True by simp
  next
    case False
    show ?thesis
    proof (cases "d \<in> ID ` set ms")
      case False
      with \<open>\<not> lookup ap d\<close> Cons.prems show ?thesis by (simp add: add_edge_cases[OF assms])
    next
      case True
      let ?deg1 = "fmupd (ID m) (geti deg (ID m) + 1) deg"
      let ?g1 = "fmupd d (getl g d @ [ID m]) g"
      from Cons.prems True \<open>\<not> lookup ap d\<close>
      have "add_edges r ap mm m ds (?deg1, ?g1) = Inr (deg', g')"
        by (simp add: add_edge_cases[OF assms])
      from Cons.IH[OF this] have ih:
        "list_all (\<lambda>d. lookup ap d \<or> d \<in> ID ` set ms) ds"
        "\<forall>k. geti deg' k = geti ?deg1 k +
            (if k = ID m
             then int (length (filter (\<lambda>d. \<not> lookup ap d \<and> d \<in> ID ` set ms) ds)) else 0)"
        "\<forall>k i. count_list (getl g' k) i = count_list (getl ?g1 k) i +
            (if i = ID m
             then count_list (filter (\<lambda>d. \<not> lookup ap d \<and> d \<in> ID ` set ms) ds) k else 0)"
        "\<forall>k. set (getl g' k) \<subseteq> insert (ID m) (set (getl ?g1 k))"
        "fmdom' ?deg1 \<subseteq> fmdom' deg'" "fmdom' deg' \<subseteq> insert (ID m) (fmdom' ?deg1)"
        by blast+
      have g1: "\<And>k. getl ?g1 k = (if k = d then getl g d @ [ID m] else getl g k)"
        by (simp add: getl_def)
      have d1: "\<And>k. geti ?deg1 k = (if k = ID m then geti deg (ID m) + 1 else geti deg k)"
        by (simp add: geti_def)
      have c1: "list_all (\<lambda>d. lookup ap d \<or> d \<in> ID ` set ms) (d # ds)"
        using ih(1) True by simp
      have c2: "\<forall>k. geti deg' k = geti deg k +
            (if k = ID m
             then int (length (filter (\<lambda>d. \<not> lookup ap d \<and> d \<in> ID ` set ms) (d # ds))) else 0)"
        using ih(2) True \<open>\<not> lookup ap d\<close> by (simp add: d1)
      have c3: "\<forall>k i. count_list (getl g' k) i = count_list (getl g k) i +
            (if i = ID m
             then count_list (filter (\<lambda>d. \<not> lookup ap d \<and> d \<in> ID ` set ms) (d # ds)) k else 0)"
        using ih(3) True \<open>\<not> lookup ap d\<close> by (simp add: g1)
      have c4: "\<forall>k. set (getl g' k) \<subseteq> insert (ID m) (set (getl g k))"
      proof
        fix k
        have "set (getl ?g1 k) \<subseteq> insert (ID m) (set (getl g k))" by (auto simp: g1)
        then show "set (getl g' k) \<subseteq> insert (ID m) (set (getl g k))"
          using ih(4) by blast
      qed
      have c5: "fmdom' deg \<subseteq> fmdom' deg'" using ih(5) by auto
      have c6: "fmdom' deg' \<subseteq> insert (ID m) (fmdom' deg)" using ih(6) by auto
      show ?thesis using c1 c2 c3 c4 c5 c6 by blast
    qed
  qed
qed

lemma add_edges_ok:
  assumes "maps_ok ms mm"
  shows "list_all (\<lambda>d. lookup ap d \<or> d \<in> ID ` set ms) ds \<Longrightarrow>
     \<exists>st'. add_edges r ap mm m ds st = Inr st'"
proof (induction ds arbitrary: st)
  case Nil
  then show ?case by simp
next
  case (Cons d ds)
  obtain deg g where st: "st = (deg, g)" by (cases st)
  from Cons.prems have "\<exists>st1. add_edge r ap mm m d (deg, g) = Inr st1"
    by (auto simp: add_edge_cases[OF assms])
  then obtain st1 where "add_edge r ap mm m d (deg, g) = Inr st1" ..
  then show ?case using Cons.IH[of st1] Cons.prems st by simp
qed

lemma build_edges_Inr:
  assumes "maps_ok ms mm"
  shows "distinct (map ID xs) \<Longrightarrow> build_edges r ap mm xs (deg, g) = Inr (deg', g') \<Longrightarrow>
     list_all (\<lambda>m. list_all (\<lambda>d. lookup ap d \<or> d \<in> ID ` set ms) (Dependencies m)) xs
     \<and> (\<forall>m. m \<in> set xs \<longrightarrow>
            geti deg' (ID m) = geti deg (ID m) + int (length (pending_deps ap ms m)))
     \<and> (\<forall>k. k \<notin> ID ` set xs \<longrightarrow> geti deg' k = geti deg k)
     \<and> (\<forall>k m. m \<in> set xs \<longrightarrow>
            count_list (getl g' k) (ID m)
              = count_list (getl g k) (ID m) + count_list (pending_deps ap ms m) k)
     \<and> (\<forall>k i. i \<notin> ID ` set xs \<longrightarrow> count_list (getl g' k) i = count_list (getl g k) i)
     \<and> (\<forall>k. set (getl g' k) \<subseteq> ID ` set xs \<union> set (getl g k))
     \<and> fmdom' deg \<subseteq> fmdom' deg' \<and> fmdom' deg' \<subseteq> ID ` set xs \<union> fmdom' deg"
proof (induction xs arbitrary: deg g)
  case Nil
  then show ?case by auto
next
  case (Cons x xs)
  from Cons.prems(2) obtain deg1 g1 where
    a: "add_edges r ap mm x (Dependencies x) (deg, g) = Inr (deg1, g1)" and
    b: "build_edges r ap mm xs (deg1, g1) = Inr (deg', g')"
    by (auto split: sum.splits)
  from Cons.prems(1) have dx: "distinct (map ID xs)" and nx: "ID x \<notin> ID ` set xs" by auto
  note A = add_edges_Inr[OF assms a, folded pending_deps_def]
  note B = Cons.IH[OF dx b]
  have A1: "list_all (\<lambda>d. lookup ap d \<or> d \<in> ID ` set ms) (Dependencies x)" using A by blast
  have A2: "\<And>k. geti deg1 k = geti deg k + (if k = ID x then int (length (pending_deps ap ms x)) else 0)"
    using A by blast
  have A3: "\<And>k i. count_list (getl g1 k) i = count_list (getl g k) i +
            (if i = ID x then count_list (pending_deps ap ms x) k else 0)"
    using A by blast
  have A4: "\<And>k. set (getl g1 k) \<subseteq> insert (ID x) (set (getl g k))" using A by blast
  have A5: "fmdom' deg \<subseteq> fmdom' deg1" "fmdom' deg1 \<subseteq> insert (ID x) (fmdom' deg)" using A by blast+
  have B1: "list_all (\<lambda>m. list_all (\<lambda>d. lookup ap d \<or> d \<in> ID ` set ms) (Dependencies m)) xs"
    using B by blast
  have B2: "\<And>m. m \<in> set xs \<Longrightarrow>
            geti deg' (ID m) = geti deg1 (ID m) + int (length (pending_deps ap ms m))"
    using B by blast
  have B3: "\<And>k. k \<notin> ID ` set xs \<Longrightarrow> geti deg' k = geti deg1 k" using B by blast
  have B4: "\<And>k m. m \<in> set xs \<Longrightarrow>
            count_list (getl g' k) (ID m)
              = count_list (getl g1 k) (ID m) + count_list (pending_deps ap ms m) k"
    using B by blast
  have B5: "\<And>k i. i \<notin> ID ` set xs \<Longrightarrow> count_list (getl g' k) i = count_list (getl g1 k) i"
    using B by blast
  have B6: "\<And>k. set (getl g' k) \<subseteq> ID ` set xs \<union> set (getl g1 k)" using B by blast
  have B7: "fmdom' deg1 \<subseteq> fmdom' deg'" "fmdom' deg' \<subseteq> ID ` set xs \<union> fmdom' deg1" using B by blast+
  have c1: "list_all (\<lambda>m. list_all (\<lambda>d. lookup ap d \<or> d \<in> ID ` set ms) (Dependencies m)) (x # xs)"
    using A1 B1 by simp
  have c2: "\<forall>m. m \<in> set (x # xs) \<longrightarrow>
            geti deg' (ID m) = geti deg (ID m) + int (length (pending_deps ap ms m))"
  proof (intro allI impI)
    fix m assume mem: "m \<in> set (x # xs)"
    show "geti deg' (ID m) = geti deg (ID m) + int (length (pending_deps ap ms m))"
    proof (cases "m = x")
      case True
      then show ?thesis using B3[OF nx] A2[of "ID x"] by simp
    next
      case False
      then have m: "m \<in> set xs" using mem by simp
      then have "ID m \<noteq> ID x" using nx by (metis imageI)
      then show ?thesis using B2[OF m] A2[of "ID m"] by simp
    qed
  qed
  have c3: "\<forall>k. k \<notin> ID ` set (x # xs) \<longrightarrow> geti deg' k = geti deg k"
    using B3 A2 by auto
  have c4: "\<forall>k m. m \<in> set (x # xs) \<longrightarrow>
            count_list (getl g' k) (ID m)
              = count_list (getl g k) (ID m) + count_list (pending_deps ap ms m) k"
  proof (intro allI impI)
    fix k m assume mem: "m \<in> set (x # xs)"
    show "count_list (getl g' k) (ID m)
              = count_list (getl g k) (ID m) + count_list (pending_deps ap ms m) k"
    proof (cases "m = x")
      case True
      then show ?thesis using B5[OF nx, of k] A3[of k "ID x"] by simp
    next
      case False
      then have m: "m \<in> set xs" using mem by simp
      then have "ID m \<noteq> ID x" using nx by (metis imageI)
      then show ?thesis using B4[OF m, of k] A3[of k "ID m"] by simp
    qed
  qed
  have c5: "\<forall>k i. i \<notin> ID ` set (x # xs) \<longrightarrow> count_list (getl g' k) i = count_list (getl g k) i"
    using B5 A3 by auto
  have c6: "\<forall>k. set (getl g' k) \<subseteq> ID ` set (x # xs) \<union> set (getl g k)"
    using B6 A4 by fastforce
  have c7: "fmdom' deg \<subseteq> fmdom' deg'" using A5 B7 by blast
  have c8: "fmdom' deg' \<subseteq> ID ` set (x # xs) \<union> fmdom' deg" using A5 B7 by auto
  show ?case using c1 c2 c3 c4 c5 c6 c7 c8 by blast
qed

lemma build_edges_ok:
  assumes "maps_ok ms mm"
  shows "list_all (\<lambda>m. list_all (\<lambda>d. lookup ap d \<or> d \<in> ID ` set ms) (Dependencies m)) xs \<Longrightarrow>
     \<exists>st'. build_edges r ap mm xs st = Inr st'"
proof (induction xs arbitrary: st)
  case Nil
  then show ?case by simp
next
  case (Cons x xs)
  from Cons.prems obtain st1 where "add_edges r ap mm x (Dependencies x) st = Inr st1"
    using add_edges_ok[OF assms, of ap "Dependencies x" r x st] by auto
  then show ?case using Cons.IH[of st1] Cons.prems by simp
qed

lemma build_maps:
  assumes "distinct (map ID ms)"
    and "fold init_step ms (fmempty, fmempty, fmempty) = (mm, deg0, g0)"
    and "build_edges r ap mm ms (deg0, g0) = Inr (deg, g)"
  shows "maps_ok ms mm" "edges_ok ap ms deg g" "no_dangling ap ms"
proof -
  note I = init_maps[OF assms(1,2)]
  show mo: "maps_ok ms mm" by (rule I(1))
  note B = build_edges_Inr[OF mo assms(1,3)]
  show "no_dangling ap ms" using B by (simp add: no_dangling_def)
  have 1: "\<forall>m. m \<in> set ms \<longrightarrow> geti deg (ID m) = int (length (pending_deps ap ms m))"
    using B I(3) by simp
  have 2: "\<forall>k m. m \<in> set ms \<longrightarrow> count_list (getl g k) (ID m) = count_list (pending_deps ap ms m) k"
    using B I(4) by simp
  have 3: "\<forall>k. set (getl g k) \<subseteq> ID ` set ms"
  proof
    fix k
    have "set (getl g k) \<subseteq> ID ` set ms \<union> set (getl g0 k)" using B by blast
    then show "set (getl g k) \<subseteq> ID ` set ms" using I(4)[of k] by simp
  qed
  have "fmdom' deg0 \<subseteq> fmdom' deg" "fmdom' deg \<subseteq> ID ` set ms \<union> fmdom' deg0" using B by blast+
  then have 4: "fmdom' deg = ID ` set ms" using I(2) by auto
  show "edges_ok ap ms deg g" unfolding edges_ok_def using 1 2 3 4 by blast
qed

lemma build_maps_ok:
  assumes "distinct (map ID ms)" "no_dangling ap ms"
    and "fold init_step ms (fmempty, fmempty, fmempty) = (mm, deg0, g0)"
  shows "\<exists>deg g. build_edges r ap mm ms (deg0, g0) = Inr (deg, g)"
proof -
  have "maps_ok ms mm" by (rule init_maps(1)[OF assms(1,3)])
  from build_edges_ok[OF this, of ap ms r "(deg0, g0)"] assms(2)
  show ?thesis by (auto simp: no_dangling_def)
qed

subsection \<open>Reducing the in-degrees\<close>

lemma relax_effect:
  assumes mo: "maps_ok ms mm"
  shows "set ds \<subseteq> ID ` set ms \<Longrightarrow> (\<forall>k. k \<in> set ds \<longrightarrow> int (count_list ds k) \<le> geti deg k) \<Longrightarrow>
     relax mm ds (deg, ready) = (deg', ready') \<Longrightarrow>
     (\<forall>k. geti deg' k = geti deg k - int (count_list ds k))
     \<and> (\<exists>new. ready' = ready @ new \<and> distinct (map ID new) \<and> set new \<subseteq> set ms
           \<and> ID ` set new = {k. k \<in> set ds \<and> geti deg k = int (count_list ds k)})"
proof (induction ds arbitrary: deg ready)
  case Nil
  then show ?case by simp
next
  case (Cons d ds)
  let ?deg1 = "fmupd d (geti deg d - 1) deg"
  have d1: "\<And>k. geti ?deg1 k = (if k = d then geti deg d - 1 else geti deg k)"
    by (simp add: geti_def)
  from Cons.prems(1) have "d \<in> ID ` set ms" by simp
  then obtain md where md: "md \<in> set ms" "ID md = d" "fmlookup mm d = Some md"
    using mo unfolding maps_ok_def by auto
  let ?r1 = "if geti deg d = 1 then ready @ [md] else ready"
  have step: "relax mm ds (?deg1, ?r1) = (deg', ready')"
    using Cons.prems(3) md(3) by (auto simp: Let_def d1 split: if_splits)
  have sub: "set ds \<subseteq> ID ` set ms" using Cons.prems(1) by simp
  have ge: "1 + int (count_list ds d) \<le> geti deg d"
    using Cons.prems(2)[rule_format, of d] by simp
  have pre: "\<forall>k. k \<in> set ds \<longrightarrow> int (count_list ds k) \<le> geti ?deg1 k"
  proof (intro allI impI)
    fix k assume k: "k \<in> set ds"
    show "int (count_list ds k) \<le> geti ?deg1 k"
    proof (cases "k = d")
      case True
      then show ?thesis using ge by (simp add: d1)
    next
      case False
      have "int (count_list (d # ds) k) \<le> geti deg k"
        using Cons.prems(2)[rule_format, of k] k by simp
      then show ?thesis using False by (simp add: d1)
    qed
  qed
  from Cons.IH[OF sub pre step] obtain new2 where ih:
    "\<forall>k. geti deg' k = geti ?deg1 k - int (count_list ds k)"
    "ready' = ?r1 @ new2" "distinct (map ID new2)" "set new2 \<subseteq> set ms"
    "ID ` set new2 = {k. k \<in> set ds \<and> geti ?deg1 k = int (count_list ds k)}"
    by blast
  have c1: "\<forall>k. geti deg' k = geti deg k - int (count_list (d # ds) k)"
    using ih(1) by (simp add: d1)
  let ?new = "(if geti deg d = 1 then [md] else []) @ new2"
  have n1: "ready' = ready @ ?new" using ih(2) by simp
  have dnotin: "geti deg d = 1 \<Longrightarrow> d \<notin> set ds"
  proof
    assume "geti deg d = 1" "d \<in> set ds"
    then have "count_list ds d > 0" by (metis count_list_0_iff gr0I)
    then show False using ge \<open>geti deg d = 1\<close> by simp
  qed
  have n2: "distinct (map ID ?new)"
  proof (cases "geti deg d = 1")
    case True
    then have "d \<notin> ID ` set new2" using dnotin ih(5) by blast
    then show ?thesis using True ih(3) md(2) by simp
  next
    case False
    then show ?thesis using ih(3) by simp
  qed
  have n3: "set ?new \<subseteq> set ms" using ih(4) md(1) by auto
  have ih5: "ID ` set new2 =
      {k. k \<in> set ds \<and> (if k = d then geti deg d - 1 else geti deg k) = int (count_list ds k)}"
    using ih(5) by (simp add: d1)
  have n4: "ID ` set ?new = {k. k \<in> set (d # ds) \<and> geti deg k = int (count_list (d # ds) k)}"
  proof (cases "geti deg d = 1")
    case True
    have "count_list ds d = 0" using dnotin[OF True] by simp
    then show ?thesis using True ih5 md(2) dnotin[OF True] by auto
  next
    case False
    have "d \<notin> set ds \<Longrightarrow> geti deg d \<noteq> int (count_list (d # ds) d)"
      using False by simp
    then show ?thesis using False ih5 by auto
  qed
  show ?case using c1 n1 n2 n3 n4 by blast
qed

subsection \<open>The invariant of the main loop\<close>

lemma filter_notin_insert:
  "a \<notin> E \<Longrightarrow>
     length (filter (\<lambda>d. d \<notin> E) xs) = length (filter (\<lambda>d. d \<notin> insert a E) xs) + count_list xs a"
  by (induction xs) auto

lemma kahn_min_snoc:
  "kahn_min ap ms E (xs @ [x]) =
     (kahn_min ap ms E xs \<and> x \<in> set ms \<and> ID x \<notin> E \<union> ID ` set xs
      \<and> is_ready ap (E \<union> ID ` set xs) x
      \<and> list_all (\<lambda>y. ID y \<notin> E \<union> ID ` set xs \<and> is_ready ap (E \<union> ID ` set xs) y
                        \<longrightarrow> Version x \<le> Version y) ms)"
proof (induction xs arbitrary: E)
  case Nil
  then show ?case by simp
next
  case (Cons a xs)
  have "insert (ID a) E \<union> ID ` set xs = E \<union> ID ` set (a # xs)" by auto
  then show ?case using Cons[of "insert (ID a) E"] by auto
qed

lemma is_ready_filter:
  assumes "no_dangling ap ms" "m \<in> set ms"
  shows "is_ready ap E m = (filter (\<lambda>d. d \<notin> E) (pending_deps ap ms m) = [])"
proof -
  have nd: "\<forall>d \<in> set (Dependencies m). lookup ap d \<or> d \<in> ID ` set ms"
    using assms by (auto simp: no_dangling_def list_all_iff)
  show ?thesis
    using nd by (auto simp: is_ready_def pending_deps_def list_all_iff filter_empty_conv)
qed

lemma ID_inj:
  "distinct (map ID ms) \<Longrightarrow> x \<in> set ms \<Longrightarrow> y \<in> set ms \<Longrightarrow> ID x = ID y \<Longrightarrow> x = y"
  by (meson distinct_map inj_onD)

lemma kinv_step:
  assumes mo: "maps_ok ms mm" and eo: "edges_ok ap ms deg0 g" and nd: "no_dangling ap ms"
    and dist: "distinct (map ID ms)"
    and inv: "kinv ap ms deg ready out"
    and srt: "sort_ready ready = c # rest"
    and rel: "relax mm (getl g (ID c)) (deg, rest) = (deg', ready')"
  shows "kinv ap ms deg' ready' (out @ [c])"
proof -
  let ?E = "ID ` set out"
  let ?ds = "getl g (ID c)"
  from inv have i1: "distinct (map ID (out @ ready))" and i1': "set (out @ ready) \<subseteq> set ms"
    and i2: "\<And>m. m \<in> set ms \<Longrightarrow>
            geti deg (ID m) = int (length (filter (\<lambda>d. d \<notin> ?E) (pending_deps ap ms m)))"
    and i3: "\<And>m. m \<in> set ms \<Longrightarrow> (m \<in> set out \<union> set ready) = (geti deg (ID m) = 0)"
    and i4: "kahn_min ap ms {} out"
    unfolding kinv_def by blast+
  from eo have g1: "\<And>k m. m \<in> set ms \<Longrightarrow>
            count_list (getl g k) (ID m) = count_list (pending_deps ap ms m) k"
    and g2: "\<And>k. set (getl g k) \<subseteq> ID ` set ms"
    unfolding edges_ok_def by blast+
  have ms_eq: "mset (c # rest) = mset ready" using mset_sort_ready[of ready] srt by simp
  then have set_ready: "set ready = insert c (set rest)" by (metis list.simps(15) mset_eq_setD)
  have "mset (map ID (c # rest)) = mset (map ID ready)"
    using ms_eq by (metis mset_map)
  then have "mset (map ID (out @ c # rest)) = mset (map ID (out @ ready))"
    by simp
  then have d_ocr: "distinct (map ID (out @ c # rest))"
    using i1 by (metis mset_eq_imp_distinct_iff)
  have c_ms: "c \<in> set ms" using i1' set_ready by auto
  have c_notE: "ID c \<notin> ?E" using d_ocr by auto
  have rest_ms: "set rest \<subseteq> set ms" using i1' set_ready by auto
  have out_ms: "set out \<subseteq> set ms" using i1' by auto
  have cnt_le: "\<And>m. m \<in> set ms \<Longrightarrow> int (count_list ?ds (ID m)) \<le> geti deg (ID m)"
  proof -
    fix m assume m: "m \<in> set ms"
    have "count_list ?ds (ID m) = count_list (pending_deps ap ms m) (ID c)" by (rule g1[OF m])
    then show "int (count_list ?ds (ID m)) \<le> geti deg (ID m)"
      using i2[OF m] filter_notin_insert[OF c_notE, of "pending_deps ap ms m"] by simp
  qed
  have sub: "set ?ds \<subseteq> ID ` set ms" by (rule g2)
  have pre: "\<forall>k. k \<in> set ?ds \<longrightarrow> int (count_list ?ds k) \<le> geti deg k"
    using sub cnt_le by auto
  from relax_effect[OF mo sub pre rel] obtain new where r:
    "\<forall>k. geti deg' k = geti deg k - int (count_list ?ds k)"
    "ready' = rest @ new" "distinct (map ID new)" "set new \<subseteq> set ms"
    "ID ` set new = {k. k \<in> set ?ds \<and> geti deg k = int (count_list ?ds k)}"
    by blast
  have E': "ID ` set (out @ [c]) = insert (ID c) ?E" by auto
  \<comment> \<open>the in-degrees count the outstanding dependencies\<close>
  have n2: "\<forall>m. m \<in> set ms \<longrightarrow>
            geti deg' (ID m)
              = int (length (filter (\<lambda>d. d \<notin> ID ` set (out @ [c])) (pending_deps ap ms m)))"
  proof (intro allI impI)
    fix m assume m: "m \<in> set ms"
    have "geti deg' (ID m) = geti deg (ID m) - int (count_list (pending_deps ap ms m) (ID c))"
      using r(1) g1[OF m, of "ID c"] by simp
    then show "geti deg' (ID m)
              = int (length (filter (\<lambda>d. d \<notin> ID ` set (out @ [c])) (pending_deps ap ms m)))"
      using i2[OF m] filter_notin_insert[OF c_notE, of "pending_deps ap ms m"]
      unfolding E' by simp
  qed
  \<comment> \<open>the members of \<open>new\<close> were neither emitted nor ready\<close>
  have new_fresh: "\<And>x. x \<in> set new \<Longrightarrow> x \<notin> set out \<union> set ready"
  proof -
    fix x assume x: "x \<in> set new"
    then have xm: "x \<in> set ms" using r(4) by auto
    from x have "ID x \<in> ID ` set new" by simp
    then have "ID x \<in> set ?ds" "geti deg (ID x) = int (count_list ?ds (ID x))"
      using r(5) by auto
    then have "geti deg (ID x) \<noteq> 0" by (metis count_list_0_iff of_nat_eq_0_iff)
    then show "x \<notin> set out \<union> set ready" using i3[OF xm] by simp
  qed
  have n3: "\<forall>m. m \<in> set ms \<longrightarrow> (m \<in> set (out @ [c]) \<union> set ready') = (geti deg' (ID m) = 0)"
  proof (intro allI impI)
    fix m assume m: "m \<in> set ms"
    have lhs: "(m \<in> set (out @ [c]) \<union> set ready') = (m \<in> set out \<union> set ready \<or> m \<in> set new)"
      using r(2) set_ready by auto
    show "(m \<in> set (out @ [c]) \<union> set ready') = (geti deg' (ID m) = 0)"
    proof (cases "m \<in> set out \<union> set ready")
      case True
      then have "geti deg (ID m) = 0" using i3[OF m] by simp
      then have "geti deg' (ID m) = 0" using r(1) cnt_le[OF m] by simp
      then show ?thesis using lhs True by blast
    next
      case False
      then have pos: "geti deg (ID m) \<noteq> 0" using i3[OF m] by simp
      have "(m \<in> set new) = (ID m \<in> ID ` set new)"
      proof
        assume "ID m \<in> ID ` set new"
        then obtain x where x: "x \<in> set new" "ID x = ID m" by auto
        then have "x = m" using ID_inj[OF dist _ m] r(4) by auto
        then show "m \<in> set new" using x by simp
      qed simp
      also have "\<dots> = (ID m \<in> set ?ds \<and> geti deg (ID m) = int (count_list ?ds (ID m)))"
        using r(5) by simp
      also have "\<dots> = (geti deg' (ID m) = 0)"
      proof
        assume "geti deg' (ID m) = 0"
        then have eq: "geti deg (ID m) = int (count_list ?ds (ID m))" using r(1) by simp
        then have "count_list ?ds (ID m) \<noteq> 0" using pos by simp
        then have "ID m \<in> set ?ds" by (simp add: count_list_0_iff)
        then show "ID m \<in> set ?ds \<and> geti deg (ID m) = int (count_list ?ds (ID m))"
          using eq by simp
      qed (use r(1) in simp)
      finally show ?thesis using lhs False by blast
    qed
  qed
  \<comment> \<open>identifiers stay distinct\<close>
  have n1: "distinct (map ID ((out @ [c]) @ ready'))"
  proof -
    have "ID ` set new \<inter> ID ` (set out \<union> set ready) = {}"
    proof (rule ccontr)
      assume "ID ` set new \<inter> ID ` (set out \<union> set ready) \<noteq> {}"
      then obtain x y where xy: "x \<in> set new" "y \<in> set out \<union> set ready" "ID x = ID y" by auto
      have "x \<in> set ms" using xy(1) r(4) by auto
      moreover have "y \<in> set ms" using xy(2) i1' by auto
      ultimately have "x = y" using ID_inj[OF dist] xy(3) by blast
      then show False using new_fresh[OF xy(1)] xy(2) by simp
    qed
    then have "ID ` set new \<inter> ID ` set (out @ c # rest) = {}" using set_ready by auto
    then show ?thesis using d_ocr r(2,3) by (auto simp: image_Un)
  qed
  have n1': "set ((out @ [c]) @ ready') \<subseteq> set ms"
    using out_ms c_ms rest_ms r(2,4) by auto
  \<comment> \<open>the emitted migration is the smallest ready one\<close>
  have c_ready: "c \<in> set ready" using set_ready by simp
  have c0: "geti deg (ID c) = 0" using i3[OF c_ms] c_ready by simp
  have rdy: "is_ready ap ?E c"
    using is_ready_filter[OF nd c_ms, of ?E] i2[OF c_ms] c0 by simp
  have least: "list_all (\<lambda>y. ID y \<notin> ?E \<and> is_ready ap ?E y \<longrightarrow> Version c \<le> Version y) ms"
    unfolding list_all_iff
  proof (intro ballI impI)
    fix y assume y: "y \<in> set ms" and h: "ID y \<notin> ?E \<and> is_ready ap ?E y"
    then have "geti deg (ID y) = 0" using is_ready_filter[OF nd y, of ?E] i2[OF y] by simp
    then have "y \<in> set out \<union> set ready" using i3[OF y] by simp
    moreover have "y \<notin> set out" using h by auto
    ultimately have "y \<in> set ready" by simp
    then show "Version c \<le> Version y" by (rule sort_ready_head_min[OF srt])
  qed
  have n4: "kahn_min ap ms {} (out @ [c])"
    using i4 c_ms c_notE rdy least by (simp add: kahn_min_snoc)
  show ?thesis unfolding kinv_def using n1 n1' n2 n3 n4 by blast
qed

lemma kahn_loop_inv_aux:
  "maps_ok ms mm \<Longrightarrow> edges_ok ap ms deg0 g \<Longrightarrow> no_dangling ap ms \<Longrightarrow> distinct (map ID ms) \<Longrightarrow>
   kinv ap ms (fst st) (fst (snd st)) (snd (snd st)) \<Longrightarrow> kahn_loop g mm st = (deg', out') \<Longrightarrow>
   kinv ap ms deg' [] out'"
proof (induction g mm st rule: kahn_loop.induct)
  case (1 graph migrationMap inDegree ready sorted_out)
  from "1.prems"(5) have inv: "kinv ap ms inDegree ready sorted_out" by simp
  show ?case
  proof (cases "ready = []")
    case True
    then have "kahn_loop graph migrationMap (inDegree, ready, sorted_out) = (inDegree, sorted_out)"
      by (subst kahn_loop.simps) simp
    then show ?thesis using inv "1.prems"(6) True by simp
  next
    case False
    then have len: "0 < length ready" by simp
    have "length (sort_ready ready) = length ready" by (rule length_sort_ready)
    then obtain c rest where srt: "sort_ready ready = c # rest"
      using False by (cases "sort_ready ready") auto
    obtain deg1 ready1 where rel:
      "relax migrationMap (getl graph (ID c)) (inDegree, rest) = (deg1, ready1)"
      by (metis surj_pair)
    have unfold: "kahn_loop graph migrationMap (inDegree, ready, sorted_out)
        = kahn_loop graph migrationMap (deg1, ready1, sorted_out @ [c])"
      using len srt rel by (subst kahn_loop.simps) simp
    have step: "kinv ap ms deg1 ready1 (sorted_out @ [c])"
      by (rule kinv_step[OF "1.prems"(1,2,3,4) inv srt rel])
    have "kinv ap ms (fst (deg1, ready1, sorted_out @ [c])) (fst (snd (deg1, ready1, sorted_out @ [c])))
            (snd (snd (deg1, ready1, sorted_out @ [c])))"
      using step by simp
    from "1.IH"[OF len srt rel[symmetric] "1.prems"(1,2,3,4) this] "1.prems"(6) unfold
    show ?thesis by simp
  qed
qed

lemma kahn_loop_inv:
  assumes "maps_ok ms mm" "edges_ok ap ms deg0 g" "no_dangling ap ms" "distinct (map ID ms)"
    and "kinv ap ms deg ready out" "kahn_loop g mm (deg, ready, out) = (deg', out')"
  shows "kinv ap ms deg' [] out'"
  using kahn_loop_inv_aux[OF assms(1,2,3,4), of "(deg, ready, out)" deg' out'] assms(5,6) by simp

lemma seed_ready_props:
  assumes "maps_ok ms mm" "fmdom' deg = ID ` set ms"
  shows "set so \<subseteq> ID ` set ms \<Longrightarrow>
     map ID (seed_ready so deg mm) = filter (\<lambda>k. geti deg k = 0) so
     \<and> set (seed_ready so deg mm) \<subseteq> set ms"
proof (induction so)
  case Nil
  then show ?case by simp
next
  case (Cons k so)
  then have k: "k \<in> ID ` set ms" by simp
  then obtain m where m: "m \<in> set ms" "ID m = k" "fmlookup mm k = Some m"
    using assms(1) unfolding maps_ok_def by auto
  from k assms(2) obtain n where n: "fmlookup deg k = Some n"
    by (metis fmlookup_dom'_iff)
  then have "geti deg k = n" by (simp add: geti_def)
  then show ?case using Cons m n by auto
qed

lemma kinv_initial:
  assumes mo: "maps_ok ms mm" and eo: "edges_ok ap ms deg g" and dist: "distinct (map ID ms)"
    and so: "distinct so" "set so = ID ` set ms"
  shows "kinv ap ms deg (seed_ready so deg mm) []"
proof -
  from eo have e1: "\<And>m. m \<in> set ms \<Longrightarrow> geti deg (ID m) = int (length (pending_deps ap ms m))"
    and e4: "fmdom' deg = ID ` set ms"
    unfolding edges_ok_def by blast+
  let ?R = "seed_ready so deg mm"
  have sp: "map ID ?R = filter (\<lambda>k. geti deg k = 0) so" "set ?R \<subseteq> set ms"
    using seed_ready_props[OF mo e4, of so] so(2) by auto
  have 1: "distinct (map ID ([] @ ?R))" using sp(1) so(1) by simp
  have 2: "set ([] @ ?R) \<subseteq> set ms" using sp(2) by simp
  have 3: "\<forall>m. m \<in> set ms \<longrightarrow>
            geti deg (ID m) = int (length (filter (\<lambda>d. d \<notin> ID ` set []) (pending_deps ap ms m)))"
    using e1 by simp
  have 4: "\<forall>m. m \<in> set ms \<longrightarrow> (m \<in> set [] \<union> set ?R) = (geti deg (ID m) = 0)"
  proof (intro allI impI)
    fix m assume m: "m \<in> set ms"
    have "(m \<in> set ?R) = (ID m \<in> set (map ID ?R))"
    proof
      assume "ID m \<in> set (map ID ?R)"
      then obtain x where x: "x \<in> set ?R" "ID x = ID m" by auto
      then have "x = m" using ID_inj[OF dist _ m] sp(2) by auto
      then show "m \<in> set ?R" using x by simp
    qed simp
    also have "\<dots> = (geti deg (ID m) = 0)" using sp(1) so(2) m by simp
    finally show "(m \<in> set [] \<union> set ?R) = (geti deg (ID m) = 0)" by simp
  qed
  show ?thesis unfolding kinv_def using 1 2 3 4 by simp
qed

lemma finite_dep_graph: "finite (dep_graph ap ms)"
proof -
  have "dep_graph ap ms \<subseteq> (ID ` set ms) \<times> (ID ` set ms)"
    by (auto simp: dep_graph_def pending_deps_def)
  then show ?thesis by (meson finite_SigmaI finite_imageI finite_set finite_subset)
qed

lemma kinv_complete:
  assumes inv: "kinv ap ms deg [] out" and ac: "acyclic (dep_graph ap ms)"
  shows "set out = set ms"
proof (rule ccontr)
  assume ne: "set out \<noteq> set ms"
  from inv have sub: "set out \<subseteq> set ms"
    and i2: "\<And>m. m \<in> set ms \<Longrightarrow>
            geti deg (ID m) = int (length (filter (\<lambda>d. d \<notin> ID ` set out) (pending_deps ap ms m)))"
    and i3: "\<And>m. m \<in> set ms \<Longrightarrow> (m \<in> set out) = (geti deg (ID m) = 0)"
    unfolding kinv_def by auto
  let ?U = "{m. m \<in> set ms \<and> m \<notin> set out}"
  from ne sub obtain u where u: "u \<in> ?U" by auto
  have wf: "wf (dep_graph ap ms)" by (rule finite_acyclic_wf[OF finite_dep_graph ac])
  have "ID u \<in> ID ` ?U" using u by blast
  from wfE_min[OF wf this] obtain z where z: "z \<in> ID ` ?U"
    "\<And>y. (y, z) \<in> dep_graph ap ms \<Longrightarrow> y \<notin> ID ` ?U"
    by blast
  from z(1) obtain m where m: "m \<in> set ms" "m \<notin> set out" "z = ID m" by auto
  have "geti deg (ID m) \<noteq> 0" using i3[OF m(1)] m(2) by simp
  then have "filter (\<lambda>d. d \<notin> ID ` set out) (pending_deps ap ms m) \<noteq> []"
    using i2[OF m(1)] by auto
  then obtain d where d: "d \<in> set (pending_deps ap ms m)" "d \<notin> ID ` set out"
    by (auto simp: filter_empty_conv)
  from d(1) have "d \<in> ID ` set ms" by (simp add: pending_deps_def)
  then obtain m' where m': "m' \<in> set ms" "d = ID m'" by auto
  then have "m' \<notin> set out" using d(2) by auto
  then have "d \<in> ID ` ?U" using m' by blast
  moreover have "(d, z) \<in> dep_graph ap ms" using d(1) m(1,3) by (auto simp: dep_graph_def)
  ultimately show False using z(2) by blast
qed

subsection \<open>The sort as a whole\<close>

lemma distinct_of_map: "distinct (map f xs) \<Longrightarrow> distinct xs"
  by (simp add: distinct_map)

lemma topologicalSort_Inr:
  assumes dist: "distinct (map ID ms)" and so: "distinct so" "set so = ID ` set ms"
    and res: "topologicalSort r ms ap so co = Inr out"
  shows "distinct (map ID out)" "set out = set ms" "kahn_min ap ms {} out" "no_dangling ap ms"
proof -
  have all: "distinct (map ID out) \<and> set out = set ms \<and> kahn_min ap ms {} out \<and> no_dangling ap ms"
  proof (cases "ms = []")
    case True
    then show ?thesis using res by (auto simp: topologicalSort_def no_dangling_def)
  next
    case False
    obtain mm deg0 g0 where init: "fold init_step ms (fmempty, fmempty, fmempty) = (mm, deg0, g0)"
      by (metis prod_cases3)
    from res False init obtain deg g where be: "build_edges r ap mm ms (deg0, g0) = Inr (deg, g)"
      by (auto simp: topologicalSort_def split: sum.splits)
    obtain deg' out' where kl:
      "kahn_loop g mm (deg, seed_ready so deg mm, []) = (deg', out')"
      by (metis surj_pair)
    from res False init be kl have len: "length out' = length ms" and eq: "out = out'"
      by (auto simp: topologicalSort_def split: if_splits)
    note bm = build_maps[OF dist init be]
    have k0: "kinv ap ms deg (seed_ready so deg mm) []"
      by (rule kinv_initial[OF bm(1,2) dist so])
    have kf: "kinv ap ms deg' [] out'"
      by (rule kahn_loop_inv[OF bm(1,2,3) dist k0 kl])
    then have d: "distinct (map ID out')" and sub: "set out' \<subseteq> set ms" and km: "kahn_min ap ms {} out'"
      unfolding kinv_def by auto
    have "distinct out'" using d by (rule distinct_of_map)
    moreover have "distinct ms" using dist by (rule distinct_of_map)
    ultimately have "card (set out') = card (set ms)" using len by (simp add: distinct_card)
    then have "set out' = set ms" using sub by (simp add: card_subset_eq)
    then show ?thesis using d km bm(3) eq by simp
  qed
  show "distinct (map ID out)" "set out = set ms" "kahn_min ap ms {} out" "no_dangling ap ms"
    using all by blast+
qed

lemma topologicalSort_ok:
  assumes dist: "distinct (map ID ms)" and so: "distinct so" "set so = ID ` set ms"
    and nd: "no_dangling ap ms" and ac: "acyclic (dep_graph ap ms)"
  shows "\<exists>out. topologicalSort r ms ap so co = Inr out"
proof (cases "ms = []")
  case True
  then show ?thesis by (simp add: topologicalSort_def)
next
  case False
  obtain mm deg0 g0 where init: "fold init_step ms (fmempty, fmempty, fmempty) = (mm, deg0, g0)"
    by (metis prod_cases3)
  from build_maps_ok[OF dist nd init] obtain deg g where
    be: "build_edges r ap mm ms (deg0, g0) = Inr (deg, g)" by blast
  obtain deg' out' where kl:
    "kahn_loop g mm (deg, seed_ready so deg mm, []) = (deg', out')"
    by (metis surj_pair)
  note bm = build_maps[OF dist init be]
  have k0: "kinv ap ms deg (seed_ready so deg mm) []"
    by (rule kinv_initial[OF bm(1,2) dist so])
  have kf: "kinv ap ms deg' [] out'"
    by (rule kahn_loop_inv[OF bm(1,2,3) dist k0 kl])
  have "set out' = set ms" by (rule kinv_complete[OF kf ac])
  moreover have "distinct out'" using kf unfolding kinv_def by (auto dest: distinct_of_map)
  moreover have "distinct ms" using dist by (rule distinct_of_map)
  ultimately have "length out' = length ms" by (metis distinct_card)
  then show ?thesis using False init be kl by (simp add: topologicalSort_def)
qed

lemma kahn_min_unique:
  assumes inj: "inj_on Version (set ms)"
  shows "kahn_min ap ms E xs \<Longrightarrow> kahn_min ap ms E ys \<Longrightarrow> length xs = length ys \<Longrightarrow> xs = ys"
proof (induction xs arbitrary: ys E)
  case Nil
  then show ?case by simp
next
  case (Cons x xs)
  then obtain y ys' where ys: "ys = y # ys'" by (cases ys) auto
  from Cons.prems(1) have x: "x \<in> set ms" "ID x \<notin> E" "is_ready ap E x"
    "list_all (\<lambda>z. ID z \<notin> E \<and> is_ready ap E z \<longrightarrow> Version x \<le> Version z) ms"
    "kahn_min ap ms (insert (ID x) E) xs"
    by auto
  from Cons.prems(2) ys have y: "y \<in> set ms" "ID y \<notin> E" "is_ready ap E y"
    "list_all (\<lambda>z. ID z \<notin> E \<and> is_ready ap E z \<longrightarrow> Version y \<le> Version z) ms"
    "kahn_min ap ms (insert (ID y) E) ys'"
    by auto
  have "Version x \<le> Version y" using x(4) y(1,2,3) by (auto simp: list_all_iff)
  moreover have "Version y \<le> Version x" using y(4) x(1,2,3) by (auto simp: list_all_iff)
  ultimately have "x = y" using inj x(1) y(1) by (auto dest: inj_onD)
  then show ?case using Cons.IH[OF x(5), of ys'] y(5) Cons.prems(3) ys by simp
qed

lemma mset_sift: "mset (sift m ps) = add_mset m (mset ps)"
  by (induction ps) auto

lemma Register_props:
  assumes "Register r m = Inr r'"
  shows "\<exists>v. ParseMigrationVersion (ID m) = Inr v
          \<and> mset (ordered r') = add_mset (m\<lparr>Version := v\<rparr>) (mset (ordered r))
          \<and> fst ` set (migrations r') = insert (ID m) (fst ` set (migrations r))
          \<and> ID m \<notin> fst ` set (migrations r)"
proof -
  from assms obtain v where v: "ParseMigrationVersion (ID m) = Inr v"
    and none: "map_of (migrations r) (ID m) = None"
    and r': "r' = \<lparr>migrations = AList.update (ID m) (m\<lparr>Version := v\<rparr>) (migrations r),
                  ordered = rev (sift (m\<lparr>Version := v\<rparr>) (rev (ordered r)))\<rparr>"
    by (auto simp: Register_def Let_def split: if_splits sum.splits)
  have "ID m \<notin> fst ` set (migrations r)" using none by (simp add: map_of_eq_None_iff)
  then show ?thesis using v r' by (auto simp: mset_sift dom_update)
qed

lemma registered_distinct:
  "registered r \<Longrightarrow>
     distinct (map ID (ordered r)) \<and> fst ` set (migrations r) = ID ` set (ordered r)"
proof (induction rule: registered.induct)
  case registered_new
  then show ?case by (simp add: NewMigrationRegistry_def)
next
  case (registered_add r m r')
  from Register_props[OF registered_add.hyps(2)] obtain v where
    ms: "mset (ordered r') = add_mset (m\<lparr>Version := v\<rparr>) (mset (ordered r))" and
    keys: "fst ` set (migrations r') = insert (ID m) (fst ` set (migrations r))" and
    fresh: "ID m \<notin> fst ` set (migrations r)"
    by blast
  have "mset (map ID (ordered r')) = mset (map ID ((m\<lparr>Version := v\<rparr>) # ordered r))"
    using ms by (metis mset.simps(2) mset_map)
  then have "distinct (map ID (ordered r')) = distinct (map ID ((m\<lparr>Version := v\<rparr>) # ordered r))"
    by (rule mset_eq_imp_distinct_iff)
  moreover have "set (ordered r') = insert (m\<lparr>Version := v\<rparr>) (set (ordered r))"
    using ms by (metis mset.simps(2) mset_eq_setD list.simps(15))
  ultimately show ?case using registered_add.IH keys fresh by auto
qed

lemma collect_pending_distinct:
  "registered r \<Longrightarrow> distinct (map ID (collect_pending r ap))"
  using registered_distinct[of r] by (simp add: collect_pending_def distinct_map_filter)

lemma dep_graph_alt:
  "dep_graph ap ms = (\<Union>m\<in>set ms. (\<lambda>d. (d, ID m)) ` set (pending_deps ap ms m))"
  by (auto simp: dep_graph_def)

lemmas sort_eval = topologicalSort_def GetPendingMigrations_def collect_pending_def lookup_def
  init_step_def add_edge_def geti_def getl_def example_migration_def Let_def

lemma registered_ordering: "registered ordering_registry"
proof -
  let ?m3 = "example_migration ''1500000000_third'' 1500000000 [''2000000000_second''] False"
  let ?m1 = "example_migration ''1000000000_first'' 1000000000 [] False"
  let ?m4 = "example_migration ''3000000000_fourth'' 3000000000 [''1000000000_first''] False"
  let ?m2 = "example_migration ''2000000000_second'' 2000000000 [] False"
  let ?r1 = "\<lparr>migrations = [(''1500000000_third'', ?m3)], ordered = [?m3]\<rparr>"
  let ?r2 = "\<lparr>migrations = [(''1500000000_third'', ?m3), (''1000000000_first'', ?m1)],
              ordered = [?m1, ?m3]\<rparr>"
  let ?r3 = "\<lparr>migrations = [(''1500000000_third'', ?m3), (''1000000000_first'', ?m1),
                            (''3000000000_fourth'', ?m4)],
              ordered = [?m1, ?m3, ?m4]\<rparr>"
  have 1: "Register NewMigrationRegistry
             (example_migration ''1500000000_third'' 0 [''2000000000_second''] False) = Inr ?r1"
    by (simp add: Register_def NewMigrationRegistry_def example_migration_def Let_def parse_eval)
  have 2: "Register ?r1 (example_migration ''1000000000_first'' 0 [] False) = Inr ?r2"
    by (simp add: Register_def example_migration_def Let_def parse_eval)
  have 3: "Register ?r2 (example_migration ''3000000000_fourth'' 0 [''1000000000_first''] False) = Inr ?r3"
    by (simp add: Register_def example_migration_def Let_def parse_eval)
  have 4: "Register ?r3 (example_migration ''2000000000_second'' 0 [] False) = Inr ordering_registry"
    by (simp add: Register_def example_migration_def ordering_registry_def Let_def parse_eval)
  show ?thesis
    using registered_add[OF registered_add[OF registered_add[OF registered_add[OF registered_new 1] 2] 3] 4] .
qed

text \<open>
  Claim C1. For a registry built by \<^verbatim>\<open>Register\<close>, an applied map and every order in which
  Go may range over the in-degree map: when no dependency of a pending migration is
  dangling and the dependency graph of the pending set is acyclic,
  \<^verbatim>\<open>GetPendingMigrations\<close> returns a sequence that holds every pending migration exactly
  once and is a run of Kahn's algorithm in which the ready migration of smallest version is
  emitted at each step. When the pending versions are pairwise different this sequence is
  the same for every iteration order. (A dangling dependency is the planning error of the
  first step of the procedure.)
\<close>

theorem GetPendingMigrations_kahn_min:
  assumes "registered r"
    and "no_dangling ap (collect_pending r ap)"
    and "acyclic (dep_graph ap (collect_pending r ap))"
    and "distinct seedOrder" and "set seedOrder = ID ` set (collect_pending r ap)"
  shows "\<exists>out. GetPendingMigrations r ap seedOrder cycleOrder = Inr out
           \<and> distinct out \<and> set out = set (collect_pending r ap)
           \<and> kahn_min ap (collect_pending r ap) {} out
           \<and> (inj_on Version (set (collect_pending r ap)) \<longrightarrow>
                (\<forall>so co. distinct so \<and> set so = ID ` set (collect_pending r ap) \<longrightarrow>
                   GetPendingMigrations r ap so co = Inr out))"
proof -
  let ?ms = "collect_pending r ap"
  have dist: "distinct (map ID ?ms)" by (rule collect_pending_distinct[OF assms(1)])
  from topologicalSort_ok[OF dist assms(4,5,2,3)] obtain out where
    ts: "topologicalSort r ?ms ap seedOrder cycleOrder = Inr out" by blast
  note P = topologicalSort_Inr[OF dist assms(4,5) ts]
  have g: "GetPendingMigrations r ap seedOrder cycleOrder = Inr out"
    using ts by (simp add: GetPendingMigrations_def)
  have d: "distinct out" using P(1) by (rule distinct_of_map)
  have u: "inj_on Version (set ?ms) \<longrightarrow>
            (\<forall>so co. distinct so \<and> set so = ID ` set ?ms \<longrightarrow>
               GetPendingMigrations r ap so co = Inr out)"
  proof (intro impI allI)
    fix so co
    assume inj: "inj_on Version (set ?ms)" and so: "distinct so \<and> set so = ID ` set ?ms"
    then have so1: "distinct so" and so2: "set so = ID ` set ?ms" by simp_all
    from topologicalSort_ok[OF dist so1 so2 assms(2,3)] obtain out2 where
      ts2: "topologicalSort r ?ms ap so co = Inr out2" by blast
    note Q = topologicalSort_Inr[OF dist so1 so2 ts2]
    have "distinct out2" using Q(1) by (rule distinct_of_map)
    then have "length out2 = length out" using d P(2) Q(2) by (metis distinct_card)
    then have "out2 = out" using kahn_min_unique[OF inj Q(3) P(3)] by simp
    then show "GetPendingMigrations r ap so co = Inr out"
      using ts2 by (simp add: GetPendingMigrations_def)
  qed
  show ?thesis using g d P(2,3) u by blast
qed

theorem GetPendingMigrations_kahn_min_witness:
  "GetPendingMigrations ordering_registry []
      [''3000000000_fourth'', ''2000000000_second'', ''1000000000_first'', ''1500000000_third''] []
     = Inr [example_migration ''1000000000_first'' 1000000000 [] False,
            example_migration ''2000000000_second'' 2000000000 [] False,
            example_migration ''1500000000_third'' 1500000000 [''2000000000_second''] False,
            example_migration ''3000000000_fourth'' 3000000000 [''1000000000_first''] False]
   \<and> \<not> (\<exists>so co. distinct so \<and> set so = ID ` set (ordered ordering_registry)
          \<and> GetPendingMigrations ordering_registry [] so co
              \<noteq> Inr [example_migration ''1000000000_first'' 1000000000 [] False,
                     example_migration ''2000000000_second'' 2000000000 [] False,
                     example_migration ''1500000000_third'' 1500000000 [''2000000000_second''] False,
                     example_migration ''3000000000_fourth'' 3000000000 [''1000000000_first''] False])"
proof -
  let ?so = "[''3000000000_fourth'', ''2000000000_second'', ''1000000000_first'', ''1500000000_third'']"
  let ?res = "[example_migration ''1000000000_first'' 1000000000 [] False,
            example_migration ''2000000000_second'' 2000000000 [] False,
            example_migration ''1500000000_third'' 1500000000 [''2000000000_second''] False,
            example_migration ''3000000000_fourth'' 3000000000 [''1000000000_first''] False]"
  have cp: "collect_pending ordering_registry [] = ordered ordering_registry"
    by (simp add: collect_pending_def lookup_def)
  have nd: "no_dangling [] (collect_pending ordering_registry [])"
    unfolding cp by (simp add: no_dangling_def ordering_registry_def example_migration_def lookup_def)
  have dg: "dep_graph [] (collect_pending ordering_registry [])
      = {(''1000000000_first'', ''3000000000_fourth''), (''2000000000_second'', ''1500000000_third'')}"
    unfolding cp dep_graph_alt
    by (simp add: pending_deps_def ordering_registry_def example_migration_def lookup_def
        del: set_filter)
  have "dep_graph [] (collect_pending ordering_registry [])
      \<subseteq> measure (\<lambda>i. if i = ''1500000000_third'' \<or> i = ''3000000000_fourth'' then 1 else 0)"
    unfolding dg by simp
  then have "wf (dep_graph [] (collect_pending ordering_registry []))"
    by (rule wf_subset[OF wf_measure])
  then have ac: "acyclic (dep_graph [] (collect_pending ordering_registry []))"
    by (rule wf_acyclic)
  have so: "distinct ?so" "set ?so = ID ` set (collect_pending ordering_registry [])"
    unfolding cp by (auto simp: ordering_registry_def example_migration_def)
  have inj: "inj_on Version (set (collect_pending ordering_registry []))"
    unfolding cp by (simp add: ordering_registry_def example_migration_def)
  have ev: "GetPendingMigrations ordering_registry [] ?so [] = Inr ?res"
    by (simp add: sort_eval ordering_registry_def)
  from GetPendingMigrations_kahn_min[OF registered_ordering nd ac so, of "[]"] obtain out where
    o: "GetPendingMigrations ordering_registry [] ?so [] = Inr out"
       "inj_on Version (set (collect_pending ordering_registry [])) \<longrightarrow>
          (\<forall>so co. distinct so \<and> set so = ID ` set (collect_pending ordering_registry []) \<longrightarrow>
             GetPendingMigrations ordering_registry [] so co = Inr out)"
    by blast
  have "out = ?res" using o(1) ev by simp
  then have all: "\<forall>so co. distinct so \<and> set so = ID ` set (ordered ordering_registry) \<longrightarrow>
             GetPendingMigrations ordering_registry [] so co = Inr ?res"
    using o(2) inj unfolding cp by simp
  show ?thesis
  proof (intro conjI notI)
    show "GetPendingMigrations ordering_registry [] ?so [] = Inr ?res" by (rule ev)
  next
    assume "\<exists>so co. distinct so \<and> set so = ID ` set (ordered ordering_registry)
          \<and> GetPendingMigrations ordering_registry [] so co \<noteq> Inr ?res"
    then obtain so co where "distinct so" "set so = ID ` set (ordered ordering_registry)"
      "GetPendingMigrations ordering_registry [] so co \<noteq> Inr ?res" by blast
    then show False using all by blast
  qed
qed

subsection \<open>Ties and targeted plans\<close>

lemma registered_tie: "registered tie_registry"
proof -
  let ?ma = "example_migration ''1700000000_a'' 1700000000 [] False"
  let ?r1 = "\<lparr>migrations = [(''1700000000_a'', ?ma)], ordered = [?ma]\<rparr>"
  have 1: "Register NewMigrationRegistry (example_migration ''1700000000_a'' 0 [] False) = Inr ?r1"
    by (simp add: Register_def NewMigrationRegistry_def example_migration_def Let_def parse_eval)
  have 2: "Register ?r1 (example_migration ''1700000000_b'' 0 [] False) = Inr tie_registry"
    by (simp add: Register_def example_migration_def tie_registry_def Let_def parse_eval)
  show ?thesis using registered_add[OF registered_add[OF registered_new 1] 2] .
qed

text \<open>
  Claim C5. \<^verbatim>\<open>GetPendingMigrations\<close> is said to return the same sequence for the same
  registry and applied set, ties between ready migrations of one version being broken by
  identifier. The ready slice is seeded by ranging over a Go map and the exchange sort
  swaps only on a strictly greater version, so two migrations of one version come out in
  the order in which that run of \<^verbatim>\<open>range\<close> visited them: the same registry and applied
  set give two different sequences.
\<close>

theorem GetPendingMigrations_tie_follows_map_order:
  "registered tie_registry
   \<and> GetPendingMigrations tie_registry [] [''1700000000_a'', ''1700000000_b''] []
       = Inr [example_migration ''1700000000_a'' 1700000000 [] False,
              example_migration ''1700000000_b'' 1700000000 [] False]
   \<and> GetPendingMigrations tie_registry [] [''1700000000_b'', ''1700000000_a''] []
       = Inr [example_migration ''1700000000_b'' 1700000000 [] False,
              example_migration ''1700000000_a'' 1700000000 [] False]
   \<and> GetPendingMigrations tie_registry [] [''1700000000_a'', ''1700000000_b''] []
       \<noteq> GetPendingMigrations tie_registry [] [''1700000000_b'', ''1700000000_a''] []"
proof -
  have a: "GetPendingMigrations tie_registry [] [''1700000000_a'', ''1700000000_b''] []
       = Inr [example_migration ''1700000000_a'' 1700000000 [] False,
              example_migration ''1700000000_b'' 1700000000 [] False]"
    by (simp add: sort_eval tie_registry_def)
  have b: "GetPendingMigrations tie_registry [] [''1700000000_b'', ''1700000000_a''] []
       = Inr [example_migration ''1700000000_b'' 1700000000 [] False,
              example_migration ''1700000000_a'' 1700000000 [] False]"
    by (simp add: sort_eval tie_registry_def)
  have c: "example_migration ''1700000000_a'' 1700000000 [] False
             \<noteq> example_migration ''1700000000_b'' 1700000000 [] False"
    by (simp add: example_migration_def)
  show ?thesis using a b c registered_tie by simp
qed







section \<open>Properties of the startup path and of the engine\<close>

subsection \<open>Startup with an interrupted migration\<close>

lemma not_rerunnable_error_text:
  "sublist ''not marked as rerunnable'' (not_rerunnable_error cliName m)"
proof -
  have "not_rerunnable_error cliName m =
      (''database is in '' @ [CHR 0x27] @ ''migrating'' @ [CHR 0x27] @
       '' state - migration '' @ [CHR 0x27] @ ID m @ [CHR 0x27] @
       '' ('' @ Description m @ '') was interrupted. '' @ ''This migration is '')
      @ ''not marked as rerunnable''
      @ ('' and requires manual intervention. '' @
         ''Options:'' @ [CHR 0x0A] @
         ''  1. Run '' @ [CHR 0x27] @ cliName @ '' validate'' @ [CHR 0x27] @
         '' to check if migration completed successfully'' @ [CHR 0x0A] @
         ''  2. Run '' @ [CHR 0x27] @ cliName @ '' force-clean'' @ [CHR 0x27] @
         '' to force reset (use with caution)'' @ [CHR 0x0A] @
         ''  3. Restore from backup if available'')"
    by (simp add: not_rerunnable_error_def)
  then show ?thesis by (metis sublist_appendI)
qed

text \<open>
  Claim C6. When startup finds the catalog with status migrating and the first migration
  of the pending plan is not rerunnable, it returns an error whose message contains
  "not marked as rerunnable", and the store, the catalog record included, is what it was.
\<close>

theorem startup_interrupted_not_rerunnable:
  assumes "catalog db = Some s" and "Status s = StatusMigrating"
    and "PlanUpgrade registry (recoverSeedOrder env) (recoverCycleOrder env) db = Inr plan"
    and "PlanMigrations plan = stuck # rest" and "\<not> Rerunnable stuck"
  shows "\<exists>msg. CheckAndRunStartupMigrations env registry opts db = (Some msg, db)
           \<and> sublist ''not marked as rerunnable'' msg
           \<and> Status (GetSchemaVersion db) = StatusMigrating"
proof -
  have init: "InitializeFreshDatabase (clockNow env) registry db = db"
    using assms(1) by (simp add: InitializeFreshDatabase_def)
  have st: "Status (GetSchemaVersion db) = StatusMigrating"
    using assms(1,2) by (simp add: GetSchemaVersion_def)
  have rec: "attemptMigrationRecovery env registry opts db
               = (Some (not_rerunnable_error (cli_name opts) stuck), db)"
    using assms(3,4,5) by (simp add: attemptMigrationRecovery_def Let_def)
  have "CheckAndRunStartupMigrations env registry opts db
          = (Some (not_rerunnable_error (cli_name opts) stuck), db)"
    using init st rec by (simp add: CheckAndRunStartupMigrations_def Let_def)
  then show ?thesis using not_rerunnable_error_text st by blast
qed

theorem startup_interrupted_not_rerunnable_witness:
  "CheckAndRunStartupMigrations example_env (single_registry False) example_opts
      \<lparr>catalog = Some (zero_record\<lparr>Status := StatusMigrating\<rparr>), user_keys = []\<rparr>
     = (Some (not_rerunnable_error ''pebble-migrate''
                (example_migration ''1755000000_x'' 1755000000 [] False)),
        \<lparr>catalog = Some (zero_record\<lparr>Status := StatusMigrating\<rparr>), user_keys = []\<rparr>)
   \<and> sublist ''not marked as rerunnable''
        (not_rerunnable_error ''pebble-migrate''
           (example_migration ''1755000000_x'' 1755000000 [] False))"
proof -
  let ?db = "\<lparr>catalog = Some (zero_record\<lparr>Status := StatusMigrating\<rparr>), user_keys = []\<rparr>"
  let ?m = "example_migration ''1755000000_x'' 1755000000 [] False"
  let ?plan = "\<lparr>PlanType = ExecutionTypeUpgrade, PlanCurrentVersion = 0,
                PlanTargetVersion = 1755000000, PlanMigrations = [?m], EstimatedSteps = 1\<rparr>"
  have c: "catalog ?db = Some (zero_record\<lparr>Status := StatusMigrating\<rparr>)" by simp
  have st: "Status (zero_record\<lparr>Status := StatusMigrating\<rparr>) = StatusMigrating" by simp
  have pl: "PlanUpgrade (single_registry False) (recoverSeedOrder example_env)
              (recoverCycleOrder example_env) ?db = Inr ?plan"
    by (simp add: PlanUpgrade_def GetSchemaVersion_def zero_record_def sort_eval
        single_registry_def example_env_def)
  have pm: "PlanMigrations ?plan = ?m # []" by simp
  have nr: "\<not> Rerunnable ?m" by (simp add: example_migration_def)
  from startup_interrupted_not_rerunnable[OF c st pl pm nr, of example_opts] obtain msg where
    msg: "CheckAndRunStartupMigrations example_env (single_registry False) example_opts ?db
            = (Some msg, ?db)"
         "sublist ''not marked as rerunnable'' msg"
    by blast
  have ev: "CheckAndRunStartupMigrations example_env (single_registry False) example_opts ?db
            = (Some (not_rerunnable_error ''pebble-migrate'' ?m), ?db)"
    using pl nr
    by (simp add: CheckAndRunStartupMigrations_def attemptMigrationRecovery_def
        InitializeFreshDatabase_def GetSchemaVersion_def cli_name_def example_opts_def Let_def)
  then have "msg = not_rerunnable_error ''pebble-migrate'' ?m" using msg(1) by simp
  then show ?thesis using ev msg(2) by simp
qed

subsection \<open>Rerun\<close>

lemma cut_first_append:
  "cut_first c xs = Some (a, b) \<Longrightarrow> cut_first c (xs @ s) = Some (a, b @ s)"
  by (induction xs arbitrary: a b) (auto split: if_splits option.splits)

lemma ParseMigrationVersion_append:
  "ParseMigrationVersion i = Inr v \<Longrightarrow> ParseMigrationVersion (i @ s) = Inr v"
proof -
  assume p: "ParseMigrationVersion i = Inr v"
  then obtain a b where ab: "cut_first (CHR ''_'') i = Some (a, b)"
    by (cases "cut_first (CHR ''_'') i") (auto simp: ParseMigrationVersion_def SplitN2_def)
  then have "SplitN2 i = [a, b]" "SplitN2 (i @ s) = [a, b @ s]"
    by (simp_all add: SplitN2_def cut_first_append)
  then show ?thesis using p by (simp add: ParseMigrationVersion_def)
qed

lemma GetSchemaVersion_cong:
  "catalog db1 = catalog db2 \<Longrightarrow> GetSchemaVersion db1 = GetSchemaVersion db2"
  by (simp add: GetSchemaVersion_def)

lemma executeSingleMigration_catalog:
  assumes "keeps_catalog (Up m)" "keeps_catalog (Down m)" "keeps_catalog (Validate m)"
  shows "catalog (snd (executeSingleMigration m up db)) = catalog db"
proof -
  have k: "\<And>f g d. f = Some g \<Longrightarrow> keeps_catalog f \<Longrightarrow> catalog (snd (g d)) = catalog d"
    by (simp add: keeps_catalog_def)
  show ?thesis
  proof (cases "if up then Up m else Down m")
    case None
    then show ?thesis by (simp add: executeSingleMigration_def)
  next
    case (Some f)
    have kf: "keeps_catalog (Some f)" using Some assms(1,2) by (auto split: if_splits)
    obtain e1 d1 where f1: "f db = (e1, d1)" by (metis surj_pair)
    have c1: "catalog d1 = catalog db" using k[OF refl kf, of db] f1 by simp
    show ?thesis
    proof (cases e1)
      case (Some err)
      then show ?thesis using \<open>(if up then Up m else Down m) = Some f\<close> f1 c1
        by (simp add: executeSingleMigration_def)
    next
      case None
      show ?thesis
      proof (cases "Validate m")
        case None
        then show ?thesis using \<open>(if up then Up m else Down m) = Some f\<close> f1 c1 \<open>e1 = None\<close>
          by (simp add: executeSingleMigration_def)
      next
        case (Some vf)
        obtain e2 d2 where f2: "vf d1 = (e2, d2)" by (metis surj_pair)
        have c2: "catalog d2 = catalog d1" using k[OF Some assms(3), of d1] f2 by simp
        show ?thesis using \<open>(if up then Up m else Down m) = Some f\<close> f1 f2 c1 c2 \<open>e1 = None\<close> Some
          by (cases e2) (simp_all add: executeSingleMigration_def)
      qed
    qed
  qed
qed

lemma version_derived_ge:
  assumes "version_derived s" "i \<in> applied_ids s" "ParseMigrationVersion i = Inr v"
  shows "v \<le> CurrentVersion s"
proof -
  have "v \<in> insert 0 (parsed_versions (applied_ids s))"
    using assms(2,3) by (auto simp: parsed_versions_def)
  moreover have "finite (insert 0 (parsed_versions (applied_ids s)))"
    by (simp add: finite_parsed_versions)
  ultimately have "v \<le> Max (insert 0 (parsed_versions (applied_ids s)))" by (rule Max_ge[rotated])
  then show ?thesis using assms(1) by (simp add: version_derived_def derived_version_def)
qed

lemma lookup_applied_ids: "lookup al k \<Longrightarrow> k \<in> fst ` set al"
  by (auto simp: lookup_def split: option.splits dest: map_of_SomeD intro: rev_image_eqI)

lemma executeRerun_success:
  assumes "PlanMigrations plan = [m]" "\<not> dryRun e"
    and "executeRerun e env plan db = (None, db')"
  shows "\<exists>db2 db3.
           executeSingleMigration m False (MarkMigrationStarted db) = (None, db2)
           \<and> executeSingleMigration m True db2 = (None, db3)
           \<and> db' = UpdateSchemaAfterMigration (clockNow env) (ID m @ ''_rerun'') (Version m)
                      (''Rerun: '' @ Description m) (elapsed env) db3
           \<and> ValidateSchemaState db = None"
proof -
  obtain e2 db2 where d: "executeSingleMigration m False (MarkMigrationStarted db) = (e2, db2)"
    by (metis surj_pair)
  obtain e3 db3 where u: "executeSingleMigration m True db2 = (e3, db3)"
    by (metis surj_pair)
  from assms d u show ?thesis
    by (auto simp: executeRerun_def split: option.splits if_splits)
qed

text \<open>
  Claim C10. A rerun that is really executed (not a dry run) and succeeds, for a migration
  whose identifier is applied and parses to its version, on a catalog that satisfies
  version derivation and with callbacks that keep the catalog key, leaves the applied map
  with the additional key \<open>id @ ''_rerun''\<close> next to \<open>id\<close>, appends the success record of
  that name to the history, and leaves the current version as it was: the suffixed
  identifier parses to the same version.
\<close>

theorem rerun_adds_suffixed_applied_entry:
  assumes "PlanType plan = ExecutionTypeRerun" and "PlanMigrations plan = [m]"
    and "\<not> dryRun e"
    and "keeps_catalog (Up m)" and "keeps_catalog (Down m)" and "keeps_catalog (Validate m)"
    and "lookup (AppliedMigrations (GetSchemaVersion db)) (ID m)"
    and "version_derived (GetSchemaVersion db)"
    and "ParseMigrationVersion (ID m) = Inr (Version m)"
    and "ExecutePlan e env plan db = (None, db')"
  shows "AppliedMigrations (GetSchemaVersion db')
           = AList.update (ID m @ ''_rerun'') True (AppliedMigrations (GetSchemaVersion db))
       \<and> lookup (AppliedMigrations (GetSchemaVersion db')) (ID m @ ''_rerun'')
       \<and> lookup (AppliedMigrations (GetSchemaVersion db')) (ID m)
       \<and> applied_ids (GetSchemaVersion db')
           = insert (ID m @ ''_rerun'') (applied_ids (GetSchemaVersion db))
       \<and> MigrationHistory (GetSchemaVersion db')
           = MigrationHistory (GetSchemaVersion db) @
               [\<lparr>RecID = ID m @ ''_rerun'', RecDescription = ''Rerun: '' @ Description m,
                 AppliedAt = clockNow env, Duration = elapsed env, Success = True, Error = []\<rparr>]
       \<and> CurrentVersion (GetSchemaVersion db') = CurrentVersion (GetSchemaVersion db)
       \<and> ParseMigrationVersion (ID m @ ''_rerun'') = Inr (Version m)
       \<and> Status (GetSchemaVersion db') = StatusClean"
proof -
  let ?s = "GetSchemaVersion db"
  have "executeRerun e env plan db = (None, db')"
    using assms(1,10)
    by (simp add: ExecutePlan_def ExecutionTypeRerun_def ExecutionTypeUpgrade_def
        ExecutionTypeDowngrade_def)
  from executeRerun_success[OF assms(2,3) this] obtain db2 db3 where
    d: "executeSingleMigration m False (MarkMigrationStarted db) = (None, db2)" and
    u: "executeSingleMigration m True db2 = (None, db3)" and
    fin: "db' = UpdateSchemaAfterMigration (clockNow env) (ID m @ ''_rerun'') (Version m)
                      (''Rerun: '' @ Description m) (elapsed env) db3"
    by blast
  have "catalog db2 = catalog (MarkMigrationStarted db)"
    using executeSingleMigration_catalog[OF assms(4,5,6), of False "MarkMigrationStarted db"] d
    by simp
  moreover have "catalog db3 = catalog db2"
    using executeSingleMigration_catalog[OF assms(4,5,6), of True db2] u by simp
  ultimately have "catalog db3 = catalog (MarkMigrationStarted db)" by simp
  then have "GetSchemaVersion db3 = GetSchemaVersion (MarkMigrationStarted db)"
    by (rule GetSchemaVersion_cong)
  then have s3: "GetSchemaVersion db3 = ?s\<lparr>Status := StatusMigrating\<rparr>"
    by (simp add: MarkMigrationStarted_def)
  have le: "Version m \<le> CurrentVersion ?s"
    using version_derived_ge[OF assms(8) _ assms(9)] lookup_applied_ids[OF assms(7)]
    by (simp add: applied_ids_def)
  have ne: "ID m @ ''_rerun'' \<noteq> ID m" by simp
  have a1: "AppliedMigrations (GetSchemaVersion db')
           = AList.update (ID m @ ''_rerun'') True (AppliedMigrations ?s)"
    unfolding fin by (simp add: UpdateSchemaAfterMigration_def Let_def s3)
  have a2: "lookup (AppliedMigrations (GetSchemaVersion db')) (ID m @ ''_rerun'')"
    unfolding a1 by (simp add: lookup_def update_conv')
  have a3: "lookup (AppliedMigrations (GetSchemaVersion db')) (ID m)"
    unfolding a1 using assms(7) ne by (simp add: lookup_def update_conv')
  have a4: "applied_ids (GetSchemaVersion db')
           = insert (ID m @ ''_rerun'') (applied_ids ?s)"
    unfolding applied_ids_def a1 by (simp add: dom_update)
  have a5: "MigrationHistory (GetSchemaVersion db')
           = MigrationHistory ?s @
               [\<lparr>RecID = ID m @ ''_rerun'', RecDescription = ''Rerun: '' @ Description m,
                 AppliedAt = clockNow env, Duration = elapsed env, Success = True, Error = []\<rparr>]"
    unfolding fin by (simp add: UpdateSchemaAfterMigration_def Let_def s3)
  have a6: "CurrentVersion (GetSchemaVersion db') = CurrentVersion ?s"
    unfolding fin using le by (simp add: UpdateSchemaAfterMigration_def Let_def s3)
  have a7: "ParseMigrationVersion (ID m @ ''_rerun'') = Inr (Version m)"
    by (rule ParseMigrationVersion_append[OF assms(9)])
  have a8: "Status (GetSchemaVersion db') = StatusClean"
    unfolding fin by (simp add: UpdateSchemaAfterMigration_def Let_def s3)
  show ?thesis
    by (intro conjI) (rule a1 a2 a3 a4 a5 a6 a7 a8)+
qed

theorem rerun_adds_suffixed_applied_entry_witness:
  "fst (ExecutePlan
          \<lparr>dryRun = False, verbose = False, enableBackup = False, hasBackupManager = True\<rparr>
          example_env
          \<lparr>PlanType = ExecutionTypeRerun, PlanCurrentVersion = 1754917200,
           PlanTargetVersion = 1754917200,
           PlanMigrations = [example_migration ''1754917200_a'' 1754917200 [] False],
           EstimatedSteps = 2\<rparr>
          (UpdateSchemaAfterMigration 3 ''1754917200_a'' 1754917200 ''example'' ''1ms''
             \<lparr>catalog = None, user_keys = []\<rparr>)) = None
   \<and> AppliedMigrations (GetSchemaVersion (snd (ExecutePlan
          \<lparr>dryRun = False, verbose = False, enableBackup = False, hasBackupManager = True\<rparr>
          example_env
          \<lparr>PlanType = ExecutionTypeRerun, PlanCurrentVersion = 1754917200,
           PlanTargetVersion = 1754917200,
           PlanMigrations = [example_migration ''1754917200_a'' 1754917200 [] False],
           EstimatedSteps = 2\<rparr>
          (UpdateSchemaAfterMigration 3 ''1754917200_a'' 1754917200 ''example'' ''1ms''
             \<lparr>catalog = None, user_keys = []\<rparr>))))
       = [(''1754917200_a'', True), (''1754917200_a_rerun'', True)]
   \<and> CurrentVersion (GetSchemaVersion (snd (ExecutePlan
          \<lparr>dryRun = False, verbose = False, enableBackup = False, hasBackupManager = True\<rparr>
          example_env
          \<lparr>PlanType = ExecutionTypeRerun, PlanCurrentVersion = 1754917200,
           PlanTargetVersion = 1754917200,
           PlanMigrations = [example_migration ''1754917200_a'' 1754917200 [] False],
           EstimatedSteps = 2\<rparr>
          (UpdateSchemaAfterMigration 3 ''1754917200_a'' 1754917200 ''example'' ''1ms''
             \<lparr>catalog = None, user_keys = []\<rparr>))))
       = 1754917200
   \<and> PlanRerun example_registry ''1754917200_a''
          (UpdateSchemaAfterMigration 3 ''1754917200_a'' 1754917200 ''example'' ''1ms''
             \<lparr>catalog = None, user_keys = []\<rparr>)
       = Inr \<lparr>PlanType = ExecutionTypeRerun, PlanCurrentVersion = 1754917200,
              PlanTargetVersion = 1754917200,
              PlanMigrations = [example_migration ''1754917200_a'' 1754917200 [] False],
              EstimatedSteps = 2\<rparr>"
proof -
  let ?e = "\<lparr>dryRun = False, verbose = False, enableBackup = False, hasBackupManager = True\<rparr>"
  let ?m = "example_migration ''1754917200_a'' 1754917200 [] False"
  let ?plan = "\<lparr>PlanType = ExecutionTypeRerun, PlanCurrentVersion = 1754917200,
           PlanTargetVersion = 1754917200, PlanMigrations = [?m], EstimatedSteps = 2\<rparr>"
  let ?db = "UpdateSchemaAfterMigration 3 ''1754917200_a'' 1754917200 ''example'' ''1ms''
             \<lparr>catalog = None, user_keys = []\<rparr>"
  let ?res = "ExecutePlan ?e example_env ?plan ?db"
  have s: "GetSchemaVersion ?db =
      \<lparr>CurrentVersion = 1754917200, AppliedMigrations = [(''1754917200_a'', True)],
       MigrationHistory = [\<lparr>RecID = ''1754917200_a'', RecDescription = ''example'',
                            AppliedAt = 3, Duration = ''1ms'', Success = True, Error = []\<rparr>],
       LastMigrationAt = 3, Status = StatusClean\<rparr>"
    by (simp add: UpdateSchemaAfterMigration_def GetSchemaVersion_def zero_record_def
        SetSchemaVersion_def Let_def)
  have pa: "ParseMigrationVersion ''1754917200_a'' = Inr 1754917200"
    by (simp add: parse_eval)
  have h1: "PlanType ?plan = ExecutionTypeRerun" by simp
  have h2: "PlanMigrations ?plan = [?m]" by simp
  have h3: "\<not> dryRun ?e" by simp
  have h4: "keeps_catalog (Up ?m)" "keeps_catalog (Down ?m)" "keeps_catalog (Validate ?m)"
    by (simp_all add: keeps_catalog_def example_migration_def noop_def)
  have h7: "lookup (AppliedMigrations (GetSchemaVersion ?db)) (ID ?m)"
    unfolding s by (simp add: lookup_def example_migration_def)
  have "reachable ?db" using pa by (intro reach_applied reach_start) simp_all
  then have h8: "version_derived (GetSchemaVersion ?db)" by (rule reachable_version_derived)
  have h9: "ParseMigrationVersion (ID ?m) = Inr (Version ?m)"
    using pa by (simp add: example_migration_def)
  have v: "ValidateSchemaState ?db = None"
    unfolding ValidateSchemaState_def s
    by (simp add: successful_step_def isRollbackRecord_def lookup_def Let_def
        StatusClean_def StatusDirty_def StatusMigrating_def StatusRollback_def)
  have f: "fst ?res = None"
    using v
    by (simp add: ExecutePlan_def executeRerun_def executeSingleMigration_def
        ExecutionTypeRerun_def ExecutionTypeUpgrade_def ExecutionTypeDowngrade_def
        example_migration_def noop_def Let_def)
  then have h10: "?res = (None, snd ?res)" by (metis prod.collapse)
  note T = rerun_adds_suffixed_applied_entry[OF h1 h2 h3 h4 h7 h8 h9 h10]
  have a: "AppliedMigrations (GetSchemaVersion (snd ?res))
             = [(''1754917200_a'', True), (''1754917200_a_rerun'', True)]"
    using T unfolding s by (simp add: example_migration_def)
  have c: "CurrentVersion (GetSchemaVersion (snd ?res)) = 1754917200"
    using T unfolding s by simp
  have p: "PlanRerun example_registry ''1754917200_a'' ?db = Inr ?plan"
    unfolding PlanRerun_def s
    by (simp add: GetMigration_def example_registry_def Let_def)
  show ?thesis by (intro conjI) (rule f a c p)+
qed

end
